theory Spec2Isabelle
  imports Main
begin

section \<open>The store: the two tables of InitSchema\<close>

text \<open>
  The program keeps all of its state in one SQLite database with the tables
  \<^verbatim>\<open>events\<close> and \<^verbatim>\<open>tickets\<close>.  A row of \<^verbatim>\<open>events\<close> has the four
  columns of the Go struct \<^verbatim>\<open>Event\<close>; a row of \<^verbatim>\<open>tickets\<close> has the columns of
  the CREATE TABLE statement.  The column \<^verbatim>\<open>status\<close> is constrained by
  \<^verbatim>\<open>CHECK (status IN ('reserved', 'confirmed', 'cancelled'))\<close>, which the
  datatype below expresses.  Timestamps are whole seconds, as
  \<^verbatim>\<open>datetime('now')\<close> produces them; integers are unbounded (row ids and
  counters stay far below 64 bits in every run considered here).

  NewDB opens the database with \<^verbatim>\<open>SetMaxOpenConns(1)\<close>: every statement and
  every transaction of the program holds the only connection while it runs, so
  operations execute one after another, and a run of the system is a sequence
  of operations on the store.
\<close>

datatype ticket_status = reserved | confirmed | cancelled

record Event =
  ID :: int
  Name :: string
  TotalSpots :: int
  AvailableSpots :: int

record ticket =
  ticket_id :: int
  event_id :: int
  user_email :: string
  idempotency_key :: string
  status :: ticket_status
  created_at :: nat
  expires_at :: nat

text \<open>
  Both tables declare \<^verbatim>\<open>id INTEGER PRIMARY KEY AUTOINCREMENT\<close>: a new row
  gets the largest id ever handed out plus one, which the store remembers per
  table (\<open>events_seq\<close>, \<open>tickets_seq\<close>).
\<close>

record DB =
  events :: "Event list"
  tickets :: "ticket list"
  events_seq :: int
  tickets_seq :: int

definition empty_db :: DB where
  "empty_db = \<lparr>events = [], tickets = [], events_seq = 0, tickets_seq = 0\<rparr>"

datatype sql_error = CheckFailed | UniqueFailed

text \<open>The table constraint \<^verbatim>\<open>CHECK (available_spots >= 0)\<close> of \<^verbatim>\<open>events\<close>.\<close>

definition events_check :: "Event \<Rightarrow> bool" where
  "events_check e = (0 \<le> AvailableSpots e)"

text \<open>
  The two uniqueness constraints of \<^verbatim>\<open>tickets\<close>:
  \<^verbatim>\<open>idempotency_key TEXT UNIQUE\<close> (over the whole table) and
  \<^verbatim>\<open>UNIQUE(event_id, user_email)\<close>.  Neither mentions the status column.
\<close>

definition tickets_unique :: "ticket list \<Rightarrow> ticket \<Rightarrow> bool" where
  "tickets_unique rows r =
     (\<not> list_ex (\<lambda>t. idempotency_key t = idempotency_key r) rows \<and>
      \<not> list_ex (\<lambda>t. event_id t = event_id r \<and> user_email t = user_email r) rows)"

subsection \<open>Statements\<close>

text \<open>
  \<^verbatim>\<open>INSERT INTO events (name, total_spots, available_spots) VALUES (?, ?, ?)\<close>.
  A statement that violates a constraint changes nothing.
\<close>

definition insert_event :: "DB \<Rightarrow> string \<Rightarrow> int \<Rightarrow> int \<Rightarrow> sql_error + DB \<times> int" where
  "insert_event db name total_spots available_spots =
     (let rowid = events_seq db + 1;
          row = \<lparr>ID = rowid, Name = name, TotalSpots = total_spots,
                 AvailableSpots = available_spots\<rparr>
      in if events_check row
         then Inr (db\<lparr>events := events db @ [row], events_seq := rowid\<rparr>, rowid)
         else Inl CheckFailed)"

text \<open>
  \<^verbatim>\<open>UPDATE events SET ... WHERE ...\<close>: the rows that satisfy the WHERE clause
  are rewritten, the CHECK constraint is evaluated on the new rows, and the
  result reports the number of rows affected.
\<close>

definition update_events ::
    "(Event \<Rightarrow> bool) \<Rightarrow> (Event \<Rightarrow> Event) \<Rightarrow> DB \<Rightarrow> sql_error + DB \<times> nat" where
  "update_events wh upd db =
     (let rows = map (\<lambda>e. if wh e then upd e else e) (events db)
      in if list_all events_check rows
         then Inr (db\<lparr>events := rows\<rparr>, length (filter wh (events db)))
         else Inl CheckFailed)"

text \<open>
  \<^verbatim>\<open>INSERT INTO tickets (event_id, user_email, idempotency_key, status, expires_at)
  VALUES (?, ?, ?, 'reserved', datetime('now', '+5 minutes'))\<close>;
  \<^verbatim>\<open>created_at\<close> takes its default, the current time.  SQLite does not
  enforce the FOREIGN KEY clause unless the connection asks for it, and NewDB
  does not.
\<close>

definition new_ticket :: "DB \<Rightarrow> nat \<Rightarrow> int \<Rightarrow> string \<Rightarrow> string \<Rightarrow> ticket" where
  "new_ticket db now eventID email idempotencyKey =
     \<lparr>ticket_id = tickets_seq db + 1, event_id = eventID, user_email = email,
      idempotency_key = idempotencyKey, status = reserved,
      created_at = now, expires_at = now + 300\<rparr>"

definition insert_ticket ::
    "DB \<Rightarrow> nat \<Rightarrow> int \<Rightarrow> string \<Rightarrow> string \<Rightarrow> sql_error + DB \<times> int" where
  "insert_ticket db now eventID email idempotencyKey =
     (let row = new_ticket db now eventID email idempotencyKey
      in if tickets_unique (tickets db) row
         then Inr (db\<lparr>tickets := tickets db @ [row], tickets_seq := ticket_id row\<rparr>, ticket_id row)
         else Inl UniqueFailed)"

text \<open>
  \<^verbatim>\<open>UPDATE tickets SET status = ... WHERE ...\<close>.  The program only ever
  assigns one of the three admitted status values, and no update touches a
  column of a uniqueness constraint, so this statement cannot violate a
  constraint.
\<close>

definition update_tickets ::
    "(ticket \<Rightarrow> bool) \<Rightarrow> (ticket \<Rightarrow> ticket) \<Rightarrow> DB \<Rightarrow> DB \<times> nat" where
  "update_tickets wh upd db =
     (db\<lparr>tickets := map (\<lambda>t. if wh t then upd t else t) (tickets db)\<rparr>,
      length (filter wh (tickets db)))"

section \<open>The operations of the database layer\<close>

datatype error = ErrSoldOut | ErrAlreadyRegistered | ErrStore sql_error | ErrNotConfirmable

text \<open>
  CreateEvent inserts the row with \<open>available_spots = total_spots\<close> and
  returns the struct.  It has no check of its own on \<open>totalSpots\<close>.
\<close>

definition CreateEvent :: "DB \<Rightarrow> string \<Rightarrow> int \<Rightarrow> (error + Event) \<times> DB" where
  "CreateEvent db name totalSpots =
     (case insert_event db name totalSpots totalSpots of
        Inl err \<Rightarrow> (Inl (ErrStore err), db)
      | Inr (db', rowid) \<Rightarrow>
          (Inr \<lparr>ID = rowid, Name = name, TotalSpots = totalSpots,
                AvailableSpots = totalSpots\<rparr>, db'))"

text \<open>
  RegisterForEvent runs inside one transaction; \<^verbatim>\<open>defer tx.Rollback()\<close> restores
  the store on every path that does not reach Commit, so those paths return the
  store they were given.
\<close>

definition RegisterForEvent ::
    "DB \<Rightarrow> nat \<Rightarrow> int \<Rightarrow> string \<Rightarrow> string \<Rightarrow> (error + int) \<times> DB" where
  "RegisterForEvent db now eventID email idempotencyKey =
     (case update_events (\<lambda>e. ID e = eventID \<and> 0 < AvailableSpots e)
             (\<lambda>e. e\<lparr>AvailableSpots := AvailableSpots e - 1\<rparr>) db of
        Inl err \<Rightarrow> (Inl (ErrStore err), db)
      | Inr (tx1, rowsAffected) \<Rightarrow>
          if rowsAffected = 0 then (Inl ErrSoldOut, db)
          else (case insert_ticket tx1 now eventID email idempotencyKey of
                  Inl err \<Rightarrow> (Inl ErrAlreadyRegistered, db)
                | Inr (tx2, ticketID) \<Rightarrow> (Inr ticketID, tx2)))"

text \<open>
  ConfirmReservation is one conditional UPDATE; zero affected rows is reported
  as the single error "ticket is expired, already confirmed, or does not exist".
\<close>

definition ConfirmReservation :: "DB \<Rightarrow> nat \<Rightarrow> int \<Rightarrow> string \<Rightarrow> error option \<times> DB" where
  "ConfirmReservation db now ticketID userEmail =
     (case update_tickets
             (\<lambda>t. ticket_id t = ticketID \<and> user_email t = userEmail \<and>
                  status t = reserved \<and> now < expires_at t)
             (\<lambda>t. t\<lparr>status := confirmed\<rparr>) db of
        (db', rows) \<Rightarrow> if rows = 0 then (Some ErrNotConfirmable, db) else (None, db'))"

text \<open>
  ReclaimExpiredSeats selects the candidates and then loops over them, all
  inside one transaction.  Each of the two statements of the loop body is
  followed by \<^verbatim>\<open>if err != nil { continue }\<close>.  Neither statement can violate
  a constraint on a store whose counters are not negative, so the error
  branches are reached only when the store itself fails; the parameter \<open>flt\<close>
  says, per candidate ticket, which statement (if any) fails that way.  A failed
  statement changes nothing; the loop goes on and the transaction is committed
  at the end.
\<close>

datatype fault = NoFault | TicketUpdateFails | EventUpdateFails

definition expired_reserved :: "nat \<Rightarrow> ticket \<Rightarrow> bool" where
  "expired_reserved now t = (status t = reserved \<and> expires_at t \<le> now)"

definition select_expired :: "DB \<Rightarrow> nat \<Rightarrow> (int \<times> int) list" where
  "select_expired db now =
     map (\<lambda>t. (ticket_id t, event_id t)) (filter (expired_reserved now) (tickets db))"

text \<open>One pass through the body of the loop, for the candidate \<open>e\<close>.\<close>

definition reclaim_one :: "(int \<Rightarrow> fault) \<Rightarrow> int \<times> int \<Rightarrow> int \<times> DB \<Rightarrow> int \<times> DB" where
  "reclaim_one flt e acc =
     (case e of (ticketID, eventID) \<Rightarrow>
      case acc of (reclaimedCount, tx) \<Rightarrow>
        if flt ticketID = TicketUpdateFails then (reclaimedCount, tx)
        else
          let tx1 = fst (update_tickets (\<lambda>t. ticket_id t = ticketID)
                           (\<lambda>t. t\<lparr>status := cancelled\<rparr>) tx)
          in if flt ticketID = EventUpdateFails then (reclaimedCount, tx1)
             else (case update_events (\<lambda>e. ID e = eventID)
                          (\<lambda>e. e\<lparr>AvailableSpots := AvailableSpots e + 1\<rparr>) tx1 of
                     Inl err \<Rightarrow> (reclaimedCount, tx1)
                   | Inr (tx2, rows) \<Rightarrow> (reclaimedCount + 1, tx2)))"

fun reclaim_loop :: "(int \<Rightarrow> fault) \<Rightarrow> (int \<times> int) list \<Rightarrow> int \<times> DB \<Rightarrow> int \<times> DB" where
  "reclaim_loop flt [] acc = acc"
| "reclaim_loop flt (e # expired) acc = reclaim_loop flt expired (reclaim_one flt e acc)"

definition ReclaimExpiredSeats :: "(int \<Rightarrow> fault) \<Rightarrow> DB \<Rightarrow> nat \<Rightarrow> int \<times> DB" where
  "ReclaimExpiredSeats flt db now =
     (let expired = select_expired db now
      in if length expired = 0 then (0, db) else reclaim_loop flt expired (0, db))"

abbreviation no_fault :: "int \<Rightarrow> fault" where
  "no_fault \<equiv> (\<lambda>_. NoFault)"

section \<open>The handler of POST /events\<close>

text \<open>
  HandleCreateEvent, after the method check and the JSON decoding (which give
  it the two fields of CreateEventRequest): the HTTP status code, the event
  sent back, and the store.
\<close>

definition HandleCreateEvent :: "DB \<Rightarrow> string \<Rightarrow> int \<Rightarrow> (nat \<times> Event option) \<times> DB" where
  "HandleCreateEvent db name total_spots =
     (if name = [] \<or> total_spots \<le> 0 then ((400, None), db)
      else (case CreateEvent db name total_spots of
              (Inl err, db') \<Rightarrow> ((500, None), db')
            | (Inr evt, db') \<Rightarrow> ((201, Some evt), db')))"

section \<open>Runs of the system\<close>

text \<open>
  \<open>run F db db'\<close>: some sequence of operations leads from the store \<open>db\<close> to
  the store \<open>db'\<close>, the failures of the statements of each reclaim cycle being
  described by some member of \<open>F\<close>.  The clock value of each operation is
  arbitrary.  The reachable stores are those that a run, with any failures,
  produces from the empty database; the stores reachable without failures
  are those of the runs in whose reclaim cycles no statement fails.
\<close>

inductive run :: "(int \<Rightarrow> fault) set \<Rightarrow> DB \<Rightarrow> DB \<Rightarrow> bool" for F where
  run_refl: "run F db db"
| run_create: "run F db db' \<Longrightarrow> run F db (snd (CreateEvent db' name totalSpots))"
| run_register:
    "run F db db' \<Longrightarrow> run F db (snd (RegisterForEvent db' now eventID email idempotencyKey))"
| run_confirm:
    "run F db db' \<Longrightarrow> run F db (snd (ConfirmReservation db' now ticketID userEmail))"
| run_reclaim:
    "run F db db' \<Longrightarrow> flt \<in> F \<Longrightarrow> run F db (snd (ReclaimExpiredSeats flt db' now))"

definition reachable :: "DB \<Rightarrow> bool" where
  "reachable db = run UNIV empty_db db"

definition reachable_without_failures :: "DB \<Rightarrow> bool" where
  "reachable_without_failures db = run {no_fault} empty_db db"

text \<open>
  A batch of registrations for one event, in the order in which the store
  serialises them (TestOptimisticConcurrency issues such a batch from
  goroutines; any order of arrival is some list).  Each request carries its
  clock value, e-mail address and idempotency key.
\<close>

fun register_all ::
    "DB \<Rightarrow> int \<Rightarrow> (nat \<times> string \<times> string) list \<Rightarrow> (error + int) list \<times> DB" where
  "register_all db eventID [] = ([], db)"
| "register_all db eventID ((now, email, idempotencyKey) # reqs) =
     (case RegisterForEvent db now eventID email idempotencyKey of
        (r, db1) \<Rightarrow>
          (case register_all db1 eventID reqs of (rs, db2) \<Rightarrow> (r # rs, db2)))"

section \<open>Quantities and invariants of the store\<close>

text \<open>The holds of an event that occupy a spot: status reserved or confirmed.\<close>

definition active_holds :: "DB \<Rightarrow> int \<Rightarrow> nat" where
  "active_holds db eventID =
     length (filter (\<lambda>t. event_id t = eventID \<and> (status t = reserved \<or> status t = confirmed))
               (tickets db))"

text \<open>No counter is negative (what the CHECK constraint maintains).\<close>

definition nonneg :: "DB \<Rightarrow> bool" where
  "nonneg db = (\<forall>e\<in>set (events db). 0 \<le> AvailableSpots e)"

text \<open>
  The ledger equation, for every event of the store, and the inequality that
  is left of it when increments can be lost.
\<close>

definition ledger :: "DB \<Rightarrow> bool" where
  "ledger db =
     (\<forall>e\<in>set (events db). AvailableSpots e = TotalSpots e - int (active_holds db (ID e)))"

definition ledger_le :: "DB \<Rightarrow> bool" where
  "ledger_le db =
     (\<forall>e\<in>set (events db). AvailableSpots e \<le> TotalSpots e - int (active_holds db (ID e)))"

text \<open>
  Well-formed stores: ids are unique and bounded by the AUTOINCREMENT counters,
  every ticket belongs to an event of the store, the two uniqueness constraints
  of \<^verbatim>\<open>tickets\<close> hold, no counter is negative, and no counter exceeds what
  the ledger equation would give it.
\<close>

definition wf_db :: "DB \<Rightarrow> bool" where
  "wf_db db =
     (distinct (map ID (events db)) \<and> distinct (map ticket_id (tickets db)) \<and>
      (\<forall>e\<in>set (events db). ID e \<le> events_seq db) \<and>
      (\<forall>t\<in>set (tickets db). ticket_id t \<le> tickets_seq db) \<and>
      (\<forall>t\<in>set (tickets db). event_id t \<in> ID ` set (events db)) \<and>
      distinct (map idempotency_key (tickets db)) \<and>
      distinct (map (\<lambda>t. (event_id t, user_email t)) (tickets db)) \<and>
      nonneg db \<and> ledger_le db)"

section \<open>Sample stores\<close>

text \<open>
  Small stores used to exercise the theorems: an event with one spot
  (\<open>one_spot_db\<close>); the same after one registration at time 0 (\<open>held_db\<close>);
  and after that registration was confirmed at time 10 (\<open>confirmed_db\<close>).
\<close>

definition one_spot_db :: DB where
  "one_spot_db = snd (CreateEvent empty_db ''GopherCon'' 1)"

definition held_db :: DB where
  "held_db = snd (RegisterForEvent one_spot_db 0 1 ''gopher0@example.com'' ''key_0'')"

definition confirmed_db :: DB where
  "confirmed_db = snd (ConfirmReservation held_db 10 1 ''gopher0@example.com'')"

text \<open>
  The event of TestOptimisticConcurrency, with five spots (\<open>gopher_db\<close>), and
  the same after one registration at time 0 (\<open>gopher_held_db\<close>).
\<close>

definition gopher_db :: DB where
  "gopher_db = snd (CreateEvent empty_db ''The Big GopherCon'' 5)"

definition gopher_held_db :: DB where
  "gopher_held_db = snd (RegisterForEvent gopher_db 0 1 ''gopher0@example.com'' ''key_0'')"

text \<open>
  The one-spot event after its reservation lapsed and a reclaim cycle ran at
  time 300 (\<open>released_db\<close>), and after a second holder then took the spot at
  time 301 (\<open>resold_db\<close>).
\<close>

definition released_db :: DB where
  "released_db = snd (ReclaimExpiredSeats no_fault held_db 300)"

definition resold_db :: DB where
  "resold_db = snd (RegisterForEvent released_db 301 1 ''gopher1@example.com'' ''key_1'')"

text \<open>
  The five-spot event after a second registration at time 10
  (\<open>gopher_two_db\<close>).
\<close>

definition gopher_two_db :: DB where
  "gopher_two_db = snd (RegisterForEvent gopher_held_db 10 1 ''gopher1@example.com'' ''key_1'')"

text \<open>
  The one-spot event after a reclaim cycle at time 300 in which the UPDATE of
  the events table failed (\<open>leaked_db\<close>), and the five-spot event with its
  two reservations after a reclaim cycle at time 300, when only the first has
  lapsed (\<open>gopher_swept_db\<close>).
\<close>

definition leaked_db :: DB where
  "leaked_db = snd (ReclaimExpiredSeats (\<lambda>i. EventUpdateFails) held_db 300)"

definition gopher_swept_db :: DB where
  "gopher_swept_db = snd (ReclaimExpiredSeats no_fault gopher_two_db 300)"

section \<open>The statements of the loop of the reclaimer\<close>

lemma reclaim_one_tickets:
  "tickets (snd (reclaim_one flt (tid, eid) (n, tx))) =
     map (\<lambda>t. if ticket_id t = tid \<and> flt tid \<noteq> TicketUpdateFails then t\<lparr>status := cancelled\<rparr> else t)
       (tickets tx)"
  by (auto simp: reclaim_one_def update_tickets_def update_events_def Let_def map_idI split: sum.splits)

lemma reclaim_one_events:
  "nonneg tx \<Longrightarrow> events (snd (reclaim_one flt (tid, eid) (n, tx))) =
     map (\<lambda>e. if ID e = eid \<and> flt tid = NoFault then e\<lparr>AvailableSpots := AvailableSpots e + 1\<rparr> else e)
       (events tx)"
  by (cases "flt tid")
     (auto simp: reclaim_one_def update_tickets_def update_events_def Let_def nonneg_def
        list_all_iff events_check_def map_idI split: sum.splits)

lemma reclaim_one_count:
  "nonneg tx \<Longrightarrow> fst (reclaim_one flt (tid, eid) (n, tx)) = n + (if flt tid = NoFault then 1 else 0)"
  by (cases "flt tid")
     (auto simp: reclaim_one_def update_tickets_def update_events_def Let_def nonneg_def
        list_all_iff events_check_def split: sum.splits)

lemma reclaim_one_seq:
  "events_seq (snd (reclaim_one flt c acc)) = events_seq (snd acc)"
  "tickets_seq (snd (reclaim_one flt c acc)) = tickets_seq (snd acc)"
  by (auto simp: reclaim_one_def update_tickets_def update_events_def Let_def
        split: sum.splits prod.splits)

lemma reclaim_one_nonneg:
  "nonneg tx \<Longrightarrow> nonneg (snd (reclaim_one flt (tid, eid) (n, tx)))"
  unfolding nonneg_def[of "snd _"] by (simp add: reclaim_one_events) (auto simp: nonneg_def)

lemma reclaim_loop_seq:
  "events_seq (snd (reclaim_loop flt cs acc)) = events_seq (snd acc)"
  "tickets_seq (snd (reclaim_loop flt cs acc)) = tickets_seq (snd acc)"
  by (induction cs arbitrary: acc) (auto simp: reclaim_one_seq)

lemma reclaim_loop_tickets:
  "tickets (snd (reclaim_loop flt cs acc)) =
     map (\<lambda>t. if ticket_id t \<in> fst ` {c \<in> set cs. flt (fst c) \<noteq> TicketUpdateFails}
               then t\<lparr>status := cancelled\<rparr> else t) (tickets (snd acc))"
proof (induction cs arbitrary: acc)
  case Nil
  show ?case by (simp add: map_idI)
next
  case (Cons c cs)
  obtain tid eid n tx where c: "c = (tid, eid)" and acc: "acc = (n, tx)"
    by (cases c, cases acc) auto
  show ?case
    by (simp add: c acc Cons.IH reclaim_one_tickets o_def) (auto simp: image_iff)
qed

lemma reclaim_loop_events:
  "nonneg (snd acc) \<Longrightarrow> events (snd (reclaim_loop flt cs acc)) =
     map (\<lambda>e. e\<lparr>AvailableSpots := AvailableSpots e +
                 int (length (filter (\<lambda>c. snd c = ID e \<and> flt (fst c) = NoFault) cs))\<rparr>)
       (events (snd acc))"
proof (induction cs arbitrary: acc)
  case Nil
  show ?case by (simp add: map_idI)
next
  case (Cons c cs)
  obtain tid eid n tx where c: "c = (tid, eid)" and acc: "acc = (n, tx)"
    by (cases c, cases acc) auto
  have nn: "nonneg (snd (reclaim_one flt c acc))"
    using Cons.prems by (simp add: c acc reclaim_one_nonneg)
  show ?case
    using Cons.prems
    by (simp add: Cons.IH[OF nn]) (auto simp add: c acc reclaim_one_events o_def)
qed

lemma reclaim_loop_count:
  "nonneg (snd acc) \<Longrightarrow> fst (reclaim_loop flt cs acc) =
     fst acc + int (length (filter (\<lambda>c. flt (fst c) = NoFault) cs))"
proof (induction cs arbitrary: acc)
  case Nil
  show ?case by simp
next
  case (Cons c cs)
  obtain tid eid n tx where c: "c = (tid, eid)" and acc: "acc = (n, tx)"
    by (cases c, cases acc) auto
  have nn: "nonneg (snd (reclaim_one flt c acc))"
    using Cons.prems by (simp add: c acc reclaim_one_nonneg)
  show ?case
    using Cons.prems
    by (simp add: Cons.IH[OF nn]) (auto simp add: c acc reclaim_one_count)
qed

section \<open>A reclaim cycle in closed form\<close>

lemma distinct_id_member:
  "distinct (map ticket_id ts) \<Longrightarrow> t \<in> set ts \<Longrightarrow>
   (ticket_id t \<in> ticket_id ` {c \<in> set ts. P c}) = P t"
  by (auto simp: distinct_map inj_on_def)

lemma Reclaim_loop:
  "ReclaimExpiredSeats flt db now = reclaim_loop flt (select_expired db now) (0, db)"
  by (simp add: ReclaimExpiredSeats_def Let_def)

lemma Reclaim_tickets:
  assumes "distinct (map ticket_id (tickets db))"
  shows "tickets (snd (ReclaimExpiredSeats flt db now)) =
     map (\<lambda>t. if expired_reserved now t \<and> flt (ticket_id t) \<noteq> TicketUpdateFails
               then t\<lparr>status := cancelled\<rparr> else t) (tickets db)"
proof -
  have img: "fst ` {c \<in> set (select_expired db now). flt (fst c) \<noteq> TicketUpdateFails} =
        ticket_id ` {t \<in> set (tickets db). expired_reserved now t \<and> flt (ticket_id t) \<noteq> TicketUpdateFails}"
    by (force simp: select_expired_def image_iff)
  show ?thesis
    unfolding Reclaim_loop reclaim_loop_tickets img snd_conv
    by (rule map_cong[OF refl]) (simp add: distinct_id_member[OF assms])
qed

lemma Reclaim_events:
  assumes "nonneg db"
  shows "events (snd (ReclaimExpiredSeats flt db now)) =
     map (\<lambda>e. e\<lparr>AvailableSpots := AvailableSpots e +
                 int (length (filter (\<lambda>t. expired_reserved now t \<and> event_id t = ID e \<and>
                                          flt (ticket_id t) = NoFault) (tickets db)))\<rparr>)
       (events db)"
proof -
  have cnt: "length (filter (\<lambda>c. snd c = i \<and> flt (fst c) = NoFault) (select_expired db now)) =
        length (filter (\<lambda>t. expired_reserved now t \<and> event_id t = i \<and> flt (ticket_id t) = NoFault) (tickets db))"
    for i
    by (simp add: select_expired_def filter_map o_def conj_commute conj_left_commute)
  show ?thesis
    using assms by (simp add: Reclaim_loop reclaim_loop_events cnt)
qed

lemma Reclaim_count:
  assumes "nonneg db"
  shows "fst (ReclaimExpiredSeats flt db now) =
     int (length (filter (\<lambda>t. expired_reserved now t \<and> flt (ticket_id t) = NoFault) (tickets db)))"
proof -
  have cnt: "length (filter (\<lambda>c. flt (fst c) = NoFault) (select_expired db now)) =
        length (filter (\<lambda>t. expired_reserved now t \<and> flt (ticket_id t) = NoFault) (tickets db))"
    by (simp add: select_expired_def filter_map o_def conj_commute)
  show ?thesis
    using assms by (simp add: Reclaim_loop reclaim_loop_count cnt)
qed

lemma Reclaim_seq:
  "events_seq (snd (ReclaimExpiredSeats flt db now)) = events_seq db"
  "tickets_seq (snd (ReclaimExpiredSeats flt db now)) = tickets_seq db"
  by (simp_all add: Reclaim_loop reclaim_loop_seq)

lemma Reclaim_tickets_nf:
  assumes "distinct (map ticket_id (tickets db))"
  shows "tickets (snd (ReclaimExpiredSeats no_fault db now)) =
     map (\<lambda>t. if expired_reserved now t then t\<lparr>status := cancelled\<rparr> else t) (tickets db)"
  by (simp add: Reclaim_tickets[OF assms])

lemma Reclaim_events_nf:
  assumes "nonneg db"
  shows "events (snd (ReclaimExpiredSeats no_fault db now)) =
     map (\<lambda>e. e\<lparr>AvailableSpots := AvailableSpots e +
                 int (length (filter (\<lambda>t. expired_reserved now t \<and> event_id t = ID e) (tickets db)))\<rparr>)
       (events db)"
  by (simp add: Reclaim_events[OF assms])

section \<open>The other operations by cases\<close>

lemma CreateEvent_ok:
  "0 \<le> n \<Longrightarrow> CreateEvent db name n =
     (Inr \<lparr>ID = events_seq db + 1, Name = name, TotalSpots = n, AvailableSpots = n\<rparr>,
      db\<lparr>events := events db @ [\<lparr>ID = events_seq db + 1, Name = name, TotalSpots = n, AvailableSpots = n\<rparr>],
         events_seq := events_seq db + 1\<rparr>)"
  by (simp add: CreateEvent_def insert_event_def events_check_def Let_def)

lemma CreateEvent_fail:
  "n < 0 \<Longrightarrow> CreateEvent db name n = (Inl (ErrStore CheckFailed), db)"
  by (simp add: CreateEvent_def insert_event_def events_check_def Let_def)

lemma update_events_dec:
  "nonneg db \<Longrightarrow>
   update_events (\<lambda>e. ID e = eid \<and> 0 < AvailableSpots e)
      (\<lambda>e. e\<lparr>AvailableSpots := AvailableSpots e - 1\<rparr>) db =
   Inr (db\<lparr>events := map (\<lambda>e. if ID e = eid \<and> 0 < AvailableSpots e
                                then e\<lparr>AvailableSpots := AvailableSpots e - 1\<rparr> else e) (events db)\<rparr>,
        length (filter (\<lambda>e. ID e = eid \<and> 0 < AvailableSpots e) (events db)))"
  by (auto simp: update_events_def Let_def list_all_iff events_check_def nonneg_def)

lemma Register_cases:
  assumes "nonneg db"
  shows "RegisterForEvent db now eid email key =
     (if \<not> list_ex (\<lambda>e. ID e = eid \<and> 0 < AvailableSpots e) (events db) then (Inl ErrSoldOut, db)
      else if \<not> tickets_unique (tickets db) (new_ticket db now eid email key)
      then (Inl ErrAlreadyRegistered, db)
      else (Inr (tickets_seq db + 1),
            db\<lparr>events := map (\<lambda>e. if ID e = eid \<and> 0 < AvailableSpots e
                                 then e\<lparr>AvailableSpots := AvailableSpots e - 1\<rparr> else e) (events db),
               tickets := tickets db @ [new_ticket db now eid email key],
               tickets_seq := tickets_seq db + 1\<rparr>))"
  by (auto simp: RegisterForEvent_def update_events_dec[OF assms] insert_ticket_def Let_def
        new_ticket_def list_ex_iff filter_empty_conv)

lemma Confirm_cases:
  "ConfirmReservation db now tid email =
     (if list_ex (\<lambda>t. ticket_id t = tid \<and> user_email t = email \<and> status t = reserved \<and> now < expires_at t)
           (tickets db)
      then (None, db\<lparr>tickets := map (\<lambda>t. if ticket_id t = tid \<and> user_email t = email \<and>
                                            status t = reserved \<and> now < expires_at t
                                         then t\<lparr>status := confirmed\<rparr> else t) (tickets db)\<rparr>)
      else (Some ErrNotConfirmable, db))"
  by (auto simp: ConfirmReservation_def update_tickets_def list_ex_iff filter_empty_conv)

section \<open>Every operation preserves well-formedness\<close>

lemma active_holds_alt:
  "active_holds db i = length (filter (\<lambda>t. event_id t = i \<and> status t \<noteq> cancelled) (tickets db))"
  unfolding active_holds_def
  by (rule arg_cong[where f = length], rule filter_cong[OF refl]) (case_tac "status x"; simp)

lemma length_filter_split:
  "length (filter P xs) =
     length (filter (\<lambda>x. P x \<and> Q x) xs) + length (filter (\<lambda>x. P x \<and> \<not> Q x) xs)"
  by (induction xs) auto

lemma ID_upd_comp:
  "ID \<circ> (\<lambda>e. if P e then e\<lparr>AvailableSpots := g e\<rparr> else e) = ID"
  by (auto simp: fun_eq_iff)

lemma set_ID_upd:
  "ID ` set (map (\<lambda>e. if P e then e\<lparr>AvailableSpots := g e\<rparr> else e) es) = ID ` set es"
proof -
  have "map ID (map (\<lambda>e. if P e then e\<lparr>AvailableSpots := g e\<rparr> else e) es) = map ID es"
    by (simp add: ID_upd_comp)
  then show ?thesis by (metis set_map)
qed

lemma distinct_ID_unique:
  "distinct (map ID es) \<Longrightarrow> e \<in> set es \<Longrightarrow> e' \<in> set es \<Longrightarrow> ID e = ID e' \<Longrightarrow> e = e'"
  by (auto simp: distinct_map inj_on_def)

lemma status_upd_comp:
  "ticket_id \<circ> (\<lambda>t. if P t then t\<lparr>status := s\<rparr> else t) = ticket_id"
  "idempotency_key \<circ> (\<lambda>t. if P t then t\<lparr>status := s\<rparr> else t) = idempotency_key"
  "(\<lambda>t. (event_id t, user_email t)) \<circ> (\<lambda>t. if P t then t\<lparr>status := s\<rparr> else t) =
     (\<lambda>t. (event_id t, user_email t))"
  "event_id \<circ> (\<lambda>t. if P t then t\<lparr>status := s\<rparr> else t) = event_id"
  by (auto simp: fun_eq_iff)

lemma wf_empty: "wf_db empty_db"
  by (simp add: wf_db_def empty_db_def nonneg_def ledger_le_def)

lemma ledger_empty: "ledger empty_db"
  by (simp add: empty_db_def ledger_def)

lemma wf_CreateEvent:
  assumes "wf_db db"
  shows "wf_db (snd (CreateEvent db name n))"
proof (cases "0 \<le> n")
  case False
  then show ?thesis using assms by (simp add: CreateEvent_fail)
next
  case True
  let ?row = "\<lparr>ID = events_seq db + 1, Name = name, TotalSpots = n, AvailableSpots = n\<rparr>"
  let ?db' = "db\<lparr>events := events db @ [?row], events_seq := events_seq db + 1\<rparr>"
  have le: "\<forall>e\<in>set (events db). ID e \<le> events_seq db"
    and ev: "\<forall>t\<in>set (tickets db). event_id t \<in> ID ` set (events db)"
    and d: "distinct (map ID (events db))" "distinct (map ticket_id (tickets db))"
    and tl: "\<forall>t\<in>set (tickets db). ticket_id t \<le> tickets_seq db"
    and u: "distinct (map idempotency_key (tickets db))"
      "distinct (map (\<lambda>t. (event_id t, user_email t)) (tickets db))"
    and nn: "nonneg db" and lg: "ledger_le db"
    using assms by (simp_all add: wf_db_def)
  have fresh: "\<forall>t\<in>set (tickets db). event_id t \<noteq> events_seq db + 1"
    using le ev by fastforce
  have nohold: "active_holds ?db' (events_seq db + 1) = 0"
    using fresh by (auto simp: active_holds_def filter_empty_conv)
  have same: "active_holds ?db' i = active_holds db i" for i
    by (simp add: active_holds_def)
  have 1: "distinct (map ID (events ?db'))"
    using d(1) le by fastforce
  have 3: "\<forall>e\<in>set (events ?db'). ID e \<le> events_seq ?db'"
    using le by fastforce
  have 5: "\<forall>t\<in>set (tickets ?db'). event_id t \<in> ID ` set (events ?db')"
    using ev by auto
  have 6: "nonneg ?db'"
    using nn True by (auto simp: nonneg_def)
  have 7: "ledger_le ?db'"
    unfolding ledger_le_def
  proof
    fix e assume "e \<in> set (events ?db')"
    then consider "e \<in> set (events db)" | "e = ?row" by auto
    then show "AvailableSpots e \<le> TotalSpots e - int (active_holds ?db' (ID e))"
    proof cases
      case 1
      then show ?thesis using lg by (simp add: same ledger_le_def)
    next
      case 2
      then show ?thesis using nohold by simp
    qed
  qed
  have "wf_db ?db'"
    unfolding wf_db_def using 1 3 5 6 7 d(2) tl u by simp
  then show ?thesis
    by (simp add: CreateEvent_ok[OF True])
qed

lemma ledger_CreateEvent:
  assumes "wf_db db" and "ledger db"
  shows "ledger (snd (CreateEvent db name n))"
proof (cases "0 \<le> n")
  case False
  then show ?thesis using assms by (simp add: CreateEvent_fail)
next
  case True
  let ?row = "\<lparr>ID = events_seq db + 1, Name = name, TotalSpots = n, AvailableSpots = n\<rparr>"
  let ?db' = "db\<lparr>events := events db @ [?row], events_seq := events_seq db + 1\<rparr>"
  have le: "\<forall>e\<in>set (events db). ID e \<le> events_seq db"
    and ev: "\<forall>t\<in>set (tickets db). event_id t \<in> ID ` set (events db)"
    and d: "distinct (map ID (events db))" "distinct (map ticket_id (tickets db))"
    and tl: "\<forall>t\<in>set (tickets db). ticket_id t \<le> tickets_seq db"
    and u: "distinct (map idempotency_key (tickets db))"
      "distinct (map (\<lambda>t. (event_id t, user_email t)) (tickets db))"
    and nn: "nonneg db" and lg: "ledger db"
    using assms by (simp_all add: wf_db_def)
  have fresh: "\<forall>t\<in>set (tickets db). event_id t \<noteq> events_seq db + 1"
    using le ev by fastforce
  have nohold: "active_holds ?db' (events_seq db + 1) = 0"
    using fresh by (auto simp: active_holds_def filter_empty_conv)
  have same: "active_holds ?db' i = active_holds db i" for i
    by (simp add: active_holds_def)
  have 1: "distinct (map ID (events ?db'))"
    using d(1) le by fastforce
  have 3: "\<forall>e\<in>set (events ?db'). ID e \<le> events_seq ?db'"
    using le by fastforce
  have 5: "\<forall>t\<in>set (tickets ?db'). event_id t \<in> ID ` set (events ?db')"
    using ev by auto
  have 6: "nonneg ?db'"
    using nn True by (auto simp: nonneg_def)
  have 7: "ledger ?db'"
    unfolding ledger_def
  proof
    fix e assume "e \<in> set (events ?db')"
    then consider "e \<in> set (events db)" | "e = ?row" by auto
    then show "AvailableSpots e = TotalSpots e - int (active_holds ?db' (ID e))"
    proof cases
      case 1
      then show ?thesis using lg by (simp add: same ledger_def)
    next
      case 2
      then show ?thesis using nohold by simp
    qed
  qed
  have "ledger ?db'" by (rule 7)
  then show ?thesis
    by (simp add: CreateEvent_ok[OF True])
qed

lemma wf_Register:
  assumes "wf_db db"
  shows "wf_db (snd (RegisterForEvent db now eid email key))"
proof -
  have le: "\<forall>e\<in>set (events db). ID e \<le> events_seq db"
    and ev: "\<forall>t\<in>set (tickets db). event_id t \<in> ID ` set (events db)"
    and d: "distinct (map ID (events db))" "distinct (map ticket_id (tickets db))"
    and tl: "\<forall>t\<in>set (tickets db). ticket_id t \<le> tickets_seq db"
    and u: "distinct (map idempotency_key (tickets db))"
      "distinct (map (\<lambda>t. (event_id t, user_email t)) (tickets db))"
    and nn: "nonneg db" and lg: "ledger_le db"
    using assms by (simp_all add: wf_db_def)
  let ?f = "\<lambda>e. if ID e = eid \<and> 0 < AvailableSpots e
                 then e\<lparr>AvailableSpots := AvailableSpots e - 1\<rparr> else e"
  let ?new = "new_ticket db now eid email key"
  let ?db' = "db\<lparr>events := map ?f (events db), tickets := tickets db @ [?new],
               tickets_seq := tickets_seq db + 1\<rparr>"
  show ?thesis
  proof (cases "list_ex (\<lambda>e. ID e = eid \<and> 0 < AvailableSpots e) (events db) \<and>
                tickets_unique (tickets db) ?new")
    case False
    then show ?thesis using assms by (auto simp: Register_cases[OF nn])
  next
    case True
    then obtain e0 where e0: "e0 \<in> set (events db)" "ID e0 = eid" "0 < AvailableSpots e0"
      by (auto simp: list_ex_iff)
    have uq: "\<forall>t\<in>set (tickets db). idempotency_key t \<noteq> key"
      "\<forall>t\<in>set (tickets db). (event_id t, user_email t) \<noteq> (eid, email)"
      using True by (auto simp: tickets_unique_def list_ex_iff new_ticket_def)
    have 1: "distinct (map ID (events ?db'))"
      using d(1) by (simp add: ID_upd_comp)
    have 2: "distinct (map ticket_id (tickets ?db'))"
      using d(2) tl by (fastforce simp: new_ticket_def)
    have 3: "\<forall>e\<in>set (events ?db'). ID e \<le> events_seq ?db'"
      using le by auto
    have 4: "\<forall>t\<in>set (tickets ?db'). ticket_id t \<le> tickets_seq ?db'"
      using tl by (fastforce simp: new_ticket_def)
    have ids: "ID ` set (events ?db') = ID ` set (events db)"
      using set_ID_upd[of "\<lambda>e. ID e = eid \<and> 0 < AvailableSpots e" "\<lambda>e. AvailableSpots e - 1" "events db"]
      by simp
    have 5: "\<forall>t\<in>set (tickets ?db'). event_id t \<in> ID ` set (events ?db')"
      unfolding ids using ev e0 by (auto simp: new_ticket_def)
    have 6: "nonneg ?db'"
      using nn by (auto simp: nonneg_def)
    have 8: "distinct (map idempotency_key (tickets ?db'))"
      using u(1) uq(1) by (auto simp: new_ticket_def)
    have 9: "distinct (map (\<lambda>t. (event_id t, user_email t)) (tickets ?db'))"
      using u(2) uq(2) by (auto simp: new_ticket_def)
    have act: "active_holds ?db' i = active_holds db i + (if i = eid then 1 else 0)" for i
      by (simp add: active_holds_def new_ticket_def)
    have 7: "ledger_le ?db'"
      unfolding ledger_le_def
    proof
      fix e' assume "e' \<in> set (events ?db')"
      then obtain e where e: "e \<in> set (events db)" "e' = ?f e" by auto
      have led: "AvailableSpots e \<le> TotalSpots e - int (active_holds db (ID e))"
        using lg e(1) by (simp add: ledger_le_def)
      show "AvailableSpots e' \<le> TotalSpots e' - int (active_holds ?db' (ID e'))"
      proof (cases "ID e = eid")
        case True
        then have "e = e0" using distinct_ID_unique[OF d(1) e(1) e0(1)] e0(2) by simp
        then show ?thesis using e0 e(2) led by (simp add: act)
      next
        case False
        then show ?thesis using e(2) led by (simp add: act)
      qed
    qed
    have "wf_db ?db'"
      unfolding wf_db_def using 1 2 3 4 5 6 7 8 9 by simp
    then show ?thesis
      using True by (simp add: Register_cases[OF nn])
  qed
qed

lemma ledger_Register:
  assumes "wf_db db" and "ledger db"
  shows "ledger (snd (RegisterForEvent db now eid email key))"
proof -
  have le: "\<forall>e\<in>set (events db). ID e \<le> events_seq db"
    and ev: "\<forall>t\<in>set (tickets db). event_id t \<in> ID ` set (events db)"
    and d: "distinct (map ID (events db))" "distinct (map ticket_id (tickets db))"
    and tl: "\<forall>t\<in>set (tickets db). ticket_id t \<le> tickets_seq db"
    and u: "distinct (map idempotency_key (tickets db))"
      "distinct (map (\<lambda>t. (event_id t, user_email t)) (tickets db))"
    and nn: "nonneg db" and lg: "ledger db"
    using assms by (simp_all add: wf_db_def)
  let ?f = "\<lambda>e. if ID e = eid \<and> 0 < AvailableSpots e
                 then e\<lparr>AvailableSpots := AvailableSpots e - 1\<rparr> else e"
  let ?new = "new_ticket db now eid email key"
  let ?db' = "db\<lparr>events := map ?f (events db), tickets := tickets db @ [?new],
               tickets_seq := tickets_seq db + 1\<rparr>"
  show ?thesis
  proof (cases "list_ex (\<lambda>e. ID e = eid \<and> 0 < AvailableSpots e) (events db) \<and>
                tickets_unique (tickets db) ?new")
    case False
    then show ?thesis using assms by (auto simp: Register_cases[OF nn])
  next
    case True
    then obtain e0 where e0: "e0 \<in> set (events db)" "ID e0 = eid" "0 < AvailableSpots e0"
      by (auto simp: list_ex_iff)
    have uq: "\<forall>t\<in>set (tickets db). idempotency_key t \<noteq> key"
      "\<forall>t\<in>set (tickets db). (event_id t, user_email t) \<noteq> (eid, email)"
      using True by (auto simp: tickets_unique_def list_ex_iff new_ticket_def)
    have 1: "distinct (map ID (events ?db'))"
      using d(1) by (simp add: ID_upd_comp)
    have 2: "distinct (map ticket_id (tickets ?db'))"
      using d(2) tl by (fastforce simp: new_ticket_def)
    have 3: "\<forall>e\<in>set (events ?db'). ID e \<le> events_seq ?db'"
      using le by auto
    have 4: "\<forall>t\<in>set (tickets ?db'). ticket_id t \<le> tickets_seq ?db'"
      using tl by (fastforce simp: new_ticket_def)
    have ids: "ID ` set (events ?db') = ID ` set (events db)"
      using set_ID_upd[of "\<lambda>e. ID e = eid \<and> 0 < AvailableSpots e" "\<lambda>e. AvailableSpots e - 1" "events db"]
      by simp
    have 5: "\<forall>t\<in>set (tickets ?db'). event_id t \<in> ID ` set (events ?db')"
      unfolding ids using ev e0 by (auto simp: new_ticket_def)
    have 6: "nonneg ?db'"
      using nn by (auto simp: nonneg_def)
    have 8: "distinct (map idempotency_key (tickets ?db'))"
      using u(1) uq(1) by (auto simp: new_ticket_def)
    have 9: "distinct (map (\<lambda>t. (event_id t, user_email t)) (tickets ?db'))"
      using u(2) uq(2) by (auto simp: new_ticket_def)
    have act: "active_holds ?db' i = active_holds db i + (if i = eid then 1 else 0)" for i
      by (simp add: active_holds_def new_ticket_def)
    have 7: "ledger ?db'"
      unfolding ledger_def
    proof
      fix e' assume "e' \<in> set (events ?db')"
      then obtain e where e: "e \<in> set (events db)" "e' = ?f e" by auto
      have led: "AvailableSpots e = TotalSpots e - int (active_holds db (ID e))"
        using lg e(1) by (simp add: ledger_def)
      show "AvailableSpots e' = TotalSpots e' - int (active_holds ?db' (ID e'))"
      proof (cases "ID e = eid")
        case True
        then have "e = e0" using distinct_ID_unique[OF d(1) e(1) e0(1)] e0(2) by simp
        then show ?thesis using e0 e(2) led by (simp add: act)
      next
        case False
        then show ?thesis using e(2) led by (simp add: act)
      qed
    qed
    have "ledger ?db'" by (rule 7)
    then show ?thesis
      using True by (simp add: Register_cases[OF nn])
  qed
qed

lemma wf_Confirm:
  assumes "wf_db db"
  shows "wf_db (snd (ConfirmReservation db now tid email))"
proof -
  have le: "\<forall>e\<in>set (events db). ID e \<le> events_seq db"
    and ev: "\<forall>t\<in>set (tickets db). event_id t \<in> ID ` set (events db)"
    and d: "distinct (map ID (events db))" "distinct (map ticket_id (tickets db))"
    and tl: "\<forall>t\<in>set (tickets db). ticket_id t \<le> tickets_seq db"
    and u: "distinct (map idempotency_key (tickets db))"
      "distinct (map (\<lambda>t. (event_id t, user_email t)) (tickets db))"
    and nn: "nonneg db" and lg: "ledger_le db"
    using assms by (simp_all add: wf_db_def)
  let ?P = "\<lambda>t. ticket_id t = tid \<and> user_email t = email \<and> status t = reserved \<and> now < expires_at t"
  let ?f = "\<lambda>t. if ?P t then t\<lparr>status := confirmed\<rparr> else t"
  let ?db' = "db\<lparr>tickets := map ?f (tickets db)\<rparr>"
  have act: "active_holds ?db' i = active_holds db i" for i
    unfolding active_holds_def
    by (simp add: filter_map o_def) (rule arg_cong[where f = length], rule filter_cong, auto)
  have 2: "distinct (map ticket_id (tickets ?db'))"
    using d(2) by (simp add: status_upd_comp)
  have 8: "distinct (map idempotency_key (tickets ?db'))"
    using u(1) by (simp add: status_upd_comp)
  have 9: "distinct (map (\<lambda>t. (event_id t, user_email t)) (tickets ?db'))"
    using u(2) by (simp add: status_upd_comp)
  have 4: "\<forall>t\<in>set (tickets ?db'). ticket_id t \<le> tickets_seq ?db'"
    using tl by auto
  have 5: "\<forall>t\<in>set (tickets ?db'). event_id t \<in> ID ` set (events ?db')"
    using ev by auto
  have 6: "nonneg ?db'"
    using nn by (simp add: nonneg_def)
  have 7: "ledger_le ?db'"
    using lg unfolding ledger_le_def act by simp
  have "wf_db ?db'"
    unfolding wf_db_def using d(1) le 2 4 5 6 7 8 9 by simp
  then show ?thesis
    using assms by (simp add: Confirm_cases)
qed

lemma ledger_Confirm:
  assumes "wf_db db" and "ledger db"
  shows "ledger (snd (ConfirmReservation db now tid email))"
proof -
  have le: "\<forall>e\<in>set (events db). ID e \<le> events_seq db"
    and ev: "\<forall>t\<in>set (tickets db). event_id t \<in> ID ` set (events db)"
    and d: "distinct (map ID (events db))" "distinct (map ticket_id (tickets db))"
    and tl: "\<forall>t\<in>set (tickets db). ticket_id t \<le> tickets_seq db"
    and u: "distinct (map idempotency_key (tickets db))"
      "distinct (map (\<lambda>t. (event_id t, user_email t)) (tickets db))"
    and nn: "nonneg db" and lg: "ledger db"
    using assms by (simp_all add: wf_db_def)
  let ?P = "\<lambda>t. ticket_id t = tid \<and> user_email t = email \<and> status t = reserved \<and> now < expires_at t"
  let ?f = "\<lambda>t. if ?P t then t\<lparr>status := confirmed\<rparr> else t"
  let ?db' = "db\<lparr>tickets := map ?f (tickets db)\<rparr>"
  have act: "active_holds ?db' i = active_holds db i" for i
    unfolding active_holds_def
    by (simp add: filter_map o_def) (rule arg_cong[where f = length], rule filter_cong, auto)
  have 2: "distinct (map ticket_id (tickets ?db'))"
    using d(2) by (simp add: status_upd_comp)
  have 8: "distinct (map idempotency_key (tickets ?db'))"
    using u(1) by (simp add: status_upd_comp)
  have 9: "distinct (map (\<lambda>t. (event_id t, user_email t)) (tickets ?db'))"
    using u(2) by (simp add: status_upd_comp)
  have 4: "\<forall>t\<in>set (tickets ?db'). ticket_id t \<le> tickets_seq ?db'"
    using tl by auto
  have 5: "\<forall>t\<in>set (tickets ?db'). event_id t \<in> ID ` set (events ?db')"
    using ev by auto
  have 6: "nonneg ?db'"
    using nn by (simp add: nonneg_def)
  have 7: "ledger ?db'"
    using lg unfolding ledger_def act by simp
  have "ledger ?db'" by (rule 7)
  then show ?thesis
    using assms by (simp add: Confirm_cases)
qed

lemma length_filter_mono:
  "(\<And>x. x \<in> set xs \<Longrightarrow> P x \<Longrightarrow> Q x) \<Longrightarrow> length (filter P xs) \<le> length (filter Q xs)"
  by (induction xs) auto

lemma active_holds_Reclaim:
  assumes "distinct (map ticket_id (tickets db))"
  shows "active_holds db i =
     active_holds (snd (ReclaimExpiredSeats flt db now)) i +
       length (filter (\<lambda>t. expired_reserved now t \<and> event_id t = i \<and>
                              flt (ticket_id t) \<noteq> TicketUpdateFails) (tickets db))"
proof -
  let ?A = "\<lambda>t. event_id t = i \<and> status t \<noteq> cancelled"
  let ?Q = "\<lambda>t. expired_reserved now t \<and> flt (ticket_id t) \<noteq> TicketUpdateFails"
  have a: "active_holds (snd (ReclaimExpiredSeats flt db now)) i =
     length (filter (\<lambda>t. ?A t \<and> \<not> ?Q t) (tickets db))"
    unfolding active_holds_alt Reclaim_tickets[OF assms]
    by (simp add: filter_map o_def) (rule arg_cong[where f = length], rule filter_cong, auto)
  have b: "length (filter (\<lambda>t. expired_reserved now t \<and> event_id t = i \<and>
                              flt (ticket_id t) \<noteq> TicketUpdateFails) (tickets db)) =
     length (filter (\<lambda>t. ?A t \<and> ?Q t) (tickets db))"
    by (rule arg_cong[where f = length], rule filter_cong) (auto simp: expired_reserved_def)
  have c: "active_holds db i =
     length (filter (\<lambda>t. ?A t \<and> ?Q t) (tickets db)) +
     length (filter (\<lambda>t. ?A t \<and> \<not> ?Q t) (tickets db))"
    unfolding active_holds_alt by (rule length_filter_split)
  show ?thesis
    by (simp only: a b c add.commute)
qed

lemma wf_Reclaim:
  assumes "wf_db db"
  shows "wf_db (snd (ReclaimExpiredSeats flt db now))"
proof -
  have le: "\<forall>e\<in>set (events db). ID e \<le> events_seq db"
    and ev: "\<forall>t\<in>set (tickets db). event_id t \<in> ID ` set (events db)"
    and d: "distinct (map ID (events db))" "distinct (map ticket_id (tickets db))"
    and tl: "\<forall>t\<in>set (tickets db). ticket_id t \<le> tickets_seq db"
    and u: "distinct (map idempotency_key (tickets db))"
      "distinct (map (\<lambda>t. (event_id t, user_email t)) (tickets db))"
    and nn: "nonneg db" and lg: "ledger_le db"
    using assms by (simp_all add: wf_db_def)
  let ?db' = "snd (ReclaimExpiredSeats flt db now)"
  note T = Reclaim_tickets[OF d(2), of flt now]
  note E = Reclaim_events[OF nn, of flt now]
  have idE: "map ID (events ?db') = map ID (events db)"
    unfolding E by (simp add: o_def)
  have 1: "distinct (map ID (events ?db'))" using d(1) by (simp only: idE)
  have 2: "distinct (map ticket_id (tickets ?db'))"
    using d(2) unfolding T by (simp add: status_upd_comp)
  have 8: "distinct (map idempotency_key (tickets ?db'))"
    using u(1) unfolding T by (simp add: status_upd_comp)
  have 9: "distinct (map (\<lambda>t. (event_id t, user_email t)) (tickets ?db'))"
    using u(2) unfolding T by (simp add: status_upd_comp)
  have 3: "\<forall>e\<in>set (events ?db'). ID e \<le> events_seq ?db'"
    using le unfolding E Reclaim_seq by auto
  have 4: "\<forall>t\<in>set (tickets ?db'). ticket_id t \<le> tickets_seq ?db'"
    using tl unfolding T Reclaim_seq by auto
  have setE: "ID ` set (events ?db') = ID ` set (events db)"
    using idE by (metis set_map)
  have 5: "\<forall>t\<in>set (tickets ?db'). event_id t \<in> ID ` set (events ?db')"
    unfolding setE using ev unfolding T by auto
  have 6: "nonneg ?db'"
    using nn unfolding nonneg_def E by auto
  have 7: "ledger_le ?db'"
    unfolding ledger_le_def
  proof
    fix e' assume "e' \<in> set (events ?db')"
    then obtain e where e: "e \<in> set (events db)"
      "e' = e\<lparr>AvailableSpots := AvailableSpots e +
                 int (length (filter (\<lambda>t. expired_reserved now t \<and> event_id t = ID e \<and>
                                          flt (ticket_id t) = NoFault) (tickets db)))\<rparr>"
      unfolding E by auto
    have led: "AvailableSpots e \<le> TotalSpots e - int (active_holds db (ID e))"
      using lg e(1) by (simp add: ledger_le_def)
    have fewer: "length (filter (\<lambda>t. expired_reserved now t \<and> event_id t = ID e \<and>
                                   flt (ticket_id t) = NoFault) (tickets db))
        \<le> length (filter (\<lambda>t. expired_reserved now t \<and> event_id t = ID e \<and>
                                flt (ticket_id t) \<noteq> TicketUpdateFails) (tickets db))"
      by (rule length_filter_mono) simp
    show "AvailableSpots e' \<le> TotalSpots e' - int (active_holds ?db' (ID e'))"
      using led fewer active_holds_Reclaim[OF d(2), of "ID e" flt now] by (simp add: e(2))
  qed
  show ?thesis
    unfolding wf_db_def using 1 2 3 4 5 6 7 8 9 by simp
qed

lemma ledger_Reclaim:
  assumes "wf_db db" and "ledger db"
  shows "ledger (snd (ReclaimExpiredSeats no_fault db now))"
  unfolding ledger_def
proof
  let ?db' = "snd (ReclaimExpiredSeats no_fault db now)"
  have d: "distinct (map ticket_id (tickets db))" and nn: "nonneg db"
    using assms(1) by (simp_all add: wf_db_def)
  fix e' assume "e' \<in> set (events ?db')"
  then obtain e where e: "e \<in> set (events db)"
    "e' = e\<lparr>AvailableSpots := AvailableSpots e +
               int (length (filter (\<lambda>t. expired_reserved now t \<and> event_id t = ID e) (tickets db)))\<rparr>"
    unfolding Reclaim_events_nf[OF nn] by auto
  have led: "AvailableSpots e = TotalSpots e - int (active_holds db (ID e))"
    using assms(2) e(1) by (simp add: ledger_def)
  show "AvailableSpots e' = TotalSpots e' - int (active_holds ?db' (ID e'))"
    using led active_holds_Reclaim[OF d, of "ID e" no_fault now] by (simp add: e(2))
qed

lemma run_wf: "run F db db' \<Longrightarrow> wf_db db \<Longrightarrow> wf_db db'"
  by (induction rule: run.induct)
     (simp_all add: wf_CreateEvent wf_Register wf_Confirm wf_Reclaim)

lemma reachable_wf: "reachable db \<Longrightarrow> wf_db db"
  unfolding reachable_def using run_wf wf_empty by blast

lemma run_ledger: "run {no_fault} db db' \<Longrightarrow> wf_db db \<Longrightarrow> ledger db \<Longrightarrow> ledger db'"
proof (induction rule: run.induct)
  case (run_refl db)
  then show ?case by simp
next
  case (run_create db db' name totalSpots)
  then show ?case using run_wf[OF run_create.hyps] by (simp add: ledger_CreateEvent)
next
  case (run_register db db' now eventID email idempotencyKey)
  then show ?case using run_wf[OF run_register.hyps] by (simp add: ledger_Register)
next
  case (run_confirm db db' now ticketID userEmail)
  then show ?case using run_wf[OF run_confirm.hyps] by (simp add: ledger_Confirm)
next
  case (run_reclaim db db' flt now)
  then have "flt = no_fault" by simp
  then show ?case
    using run_reclaim run_wf[OF run_reclaim.hyps(1)] by (simp add: ledger_Reclaim)
qed

section \<open>Further facts about the operations\<close>

lemma CreateEvent_tickets:
  "tickets (snd (CreateEvent db name n)) = tickets db"
  by (simp add: CreateEvent_def insert_event_def Let_def)

lemma Register_tickets:
  "tickets (snd (RegisterForEvent db now eid email key)) = tickets db \<or>
   tickets (snd (RegisterForEvent db now eid email key)) =
     tickets db @ [new_ticket db now eid email key]"
  by (auto simp: RegisterForEvent_def update_events_def insert_ticket_def new_ticket_def Let_def
        split: sum.splits if_splits)

lemma Register_success:
  assumes "nonneg db" and "RegisterForEvent db now eid email key = (Inr tid, db1)"
  shows "list_ex (\<lambda>e. ID e = eid \<and> 0 < AvailableSpots e) (events db)"
    and "tickets_unique (tickets db) (new_ticket db now eid email key)"
    and "tid = tickets_seq db + 1"
    and "db1 = db\<lparr>events := map (\<lambda>e. if ID e = eid \<and> 0 < AvailableSpots e
                                 then e\<lparr>AvailableSpots := AvailableSpots e - 1\<rparr> else e) (events db),
               tickets := tickets db @ [new_ticket db now eid email key],
               tickets_seq := tickets_seq db + 1\<rparr>"
  using assms(2) unfolding Register_cases[OF assms(1)] by (auto split: if_splits)

lemma dec_map_distinct:
  assumes "distinct (map ID es)" and "e0 \<in> set es" and "ID e0 = eid" and "0 < AvailableSpots e0"
  shows "map (\<lambda>e. if ID e = eid \<and> 0 < AvailableSpots e
                  then e\<lparr>AvailableSpots := AvailableSpots e - 1\<rparr> else e) es =
         map (\<lambda>e. if ID e = eid then e\<lparr>AvailableSpots := AvailableSpots e - 1\<rparr> else e) es"
proof (rule map_cong[OF refl])
  fix e assume "e \<in> set es"
  then have "ID e = eid \<Longrightarrow> e = e0"
    using distinct_ID_unique[OF assms(1) _ assms(2)] assms(3) by simp
  then show "(if ID e = eid \<and> 0 < AvailableSpots e
                  then e\<lparr>AvailableSpots := AvailableSpots e - 1\<rparr> else e) =
             (if ID e = eid then e\<lparr>AvailableSpots := AvailableSpots e - 1\<rparr> else e)"
    using assms(4) by auto
qed

lemma distinct_ID_count:
  "distinct (map ID es) \<Longrightarrow> e0 \<in> set es \<Longrightarrow> length (filter (\<lambda>e. ID e = ID e0) es) = 1"
proof (induction es)
  case Nil
  then show ?case by simp
next
  case (Cons a es)
  show ?case
  proof (cases "a = e0")
    case True
    have "ID e0 \<notin> ID ` set es"
      using Cons.prems(1) True by simp
    then have "\<forall>x\<in>set es. ID x \<noteq> ID e0"
      by (metis imageI)
    then have "filter (\<lambda>e. ID e = ID e0) es = []"
      by (simp add: filter_empty_conv)
    then show ?thesis using True by simp
  next
    case False
    then have "e0 \<in> set es" using Cons.prems(2) by simp
    moreover have "ID a \<noteq> ID e0" using Cons.prems(1) \<open>e0 \<in> set es\<close> by auto
    ultimately show ?thesis using Cons by simp
  qed
qed

lemma distinct_ticket_unique:
  "distinct (map ticket_id ts) \<Longrightarrow> t \<in> set ts \<Longrightarrow> t' \<in> set ts \<Longrightarrow>
   ticket_id t = ticket_id t' \<Longrightarrow> t = t'"
  by (auto simp: distinct_map inj_on_def)

lemma Reclaim_ticket_member:
  assumes "distinct (map ticket_id (tickets db))" and "t \<in> set (tickets db)"
    and "flt (ticket_id t) \<noteq> EventUpdateFails"
  shows "(if expired_reserved now t \<and> flt (ticket_id t) = NoFault
          then t\<lparr>status := cancelled\<rparr> else t)
         \<in> set (tickets (snd (ReclaimExpiredSeats flt db now)))"
proof -
  let ?g = "\<lambda>t. if expired_reserved now t \<and> flt (ticket_id t) \<noteq> TicketUpdateFails
               then t\<lparr>status := cancelled\<rparr> else t"
  have "(flt (ticket_id t) \<noteq> TicketUpdateFails) = (flt (ticket_id t) = NoFault)"
    using assms(3) by (cases "flt (ticket_id t)") simp_all
  then have "(if expired_reserved now t \<and> flt (ticket_id t) = NoFault
          then t\<lparr>status := cancelled\<rparr> else t) = ?g t"
    by simp
  moreover have "?g t \<in> set (map ?g (tickets db))"
    using assms(2) by (rule imageI[of t "set (tickets db)" ?g, folded set_map])
  ultimately show ?thesis
    by (simp only: Reclaim_tickets[OF assms(1)])
qed

lemma run_cancelled:
  "run F d d' \<Longrightarrow> wf_db d \<Longrightarrow> t \<in> set (tickets d) \<Longrightarrow> status t = cancelled \<Longrightarrow>
   t \<in> set (tickets d')"
proof (induction rule: run.induct)
  case (run_refl db)
  then show ?case by simp
next
  case (run_create db db' name totalSpots)
  then show ?case by (simp add: CreateEvent_tickets)
next
  case (run_register db db' now eventID email idempotencyKey)
  then have "t \<in> set (tickets db')" by simp
  then show ?case
    using Register_tickets[of db' now eventID email idempotencyKey] by auto
next
  case (run_confirm db db' now ticketID userEmail)
  then have m: "t \<in> set (tickets db')" by simp
  let ?f = "\<lambda>t. if ticket_id t = ticketID \<and> user_email t = userEmail \<and>
                  status t = reserved \<and> now < expires_at t
               then t\<lparr>status := confirmed\<rparr> else t"
  have same: "?f t = t" using run_confirm.prems(3) by simp
  have "?f t \<in> set (map ?f (tickets db'))"
    using m by (rule imageI[of t "set (tickets db')" ?f, folded set_map])
  then have "t \<in> set (map ?f (tickets db'))"
    by (simp only: same)
  then show ?case
    using m by (simp add: Confirm_cases)
next
  case (run_reclaim db db' flt now)
  then have m: "t \<in> set (tickets db')" by simp
  have "wf_db db'" using run_reclaim.hyps(1) run_reclaim.prems(1) by (rule run_wf)
  then have d: "distinct (map ticket_id (tickets db'))" by (simp add: wf_db_def)
  let ?g = "\<lambda>t. if expired_reserved now t \<and> flt (ticket_id t) \<noteq> TicketUpdateFails
               then t\<lparr>status := cancelled\<rparr> else t"
  have same: "?g t = t" using run_reclaim.prems(3) by (simp add: expired_reserved_def)
  have "?g t \<in> set (map ?g (tickets db'))"
    using m by (rule imageI[of t "set (tickets db')" ?g, folded set_map])
  then have "t \<in> set (map ?g (tickets db'))"
    by (simp only: same)
  then show ?case
    by (simp only: Reclaim_tickets[OF d])
qed

lemma register_all_same:
  assumes "\<And>now. RegisterForEvent d now eid email key = (r, d)"
  shows "\<forall>q\<in>set reqs. snd q = (email, key) \<Longrightarrow>
         register_all d eid reqs = (replicate (length reqs) r, d)"
proof (induction reqs)
  case Nil
  show ?case by simp
next
  case (Cons q reqs)
  obtain now where q: "q = (now, email, key)"
    using Cons.prems by (cases q) auto
  show ?case
    using Cons by (simp add: q assms)
qed

lemma register_all_counts:
  assumes "register_all d eid reqs = (res, d')"
    and "wf_db d" and "e \<in> set (events d)" and "ID e = eid"
    and "distinct (map (\<lambda>q. fst (snd q)) reqs)" and "distinct (map (\<lambda>q. snd (snd q)) reqs)"
    and "\<forall>q\<in>set reqs. \<forall>t\<in>set (tickets d).
           idempotency_key t \<noteq> snd (snd q) \<and> \<not> (event_id t = eid \<and> user_email t = fst (snd q))"
  shows "wf_db d' \<and> length res = length reqs \<and>
         length (filter (\<lambda>r. \<not> isl r) res) = min (nat (AvailableSpots e)) (length reqs) \<and>
         length (filter (\<lambda>r. r = Inl ErrSoldOut) res) =
           length reqs - min (nat (AvailableSpots e)) (length reqs) \<and>
         (\<exists>e'\<in>set (events d'). ID e' = eid \<and> TotalSpots e' = TotalSpots e \<and>
            AvailableSpots e' = AvailableSpots e - int (min (nat (AvailableSpots e)) (length reqs)))"
  using assms
proof (induction reqs arbitrary: d e res)
  case Nil
  then show ?case by auto
next
  case (Cons q reqs)
  obtain now email key where q: "q = (now, email, key)" by (cases q)
  obtain r d1 where reg: "RegisterForEvent d now eid email key = (r, d1)"
    by (cases "RegisterForEvent d now eid email key")
  obtain rs where rest: "register_all d1 eid reqs = (rs, d')" and res: "res = r # rs"
    using Cons.prems(1) by (auto simp: q reg split: prod.splits)
  have nn: "nonneg d" and dI: "distinct (map ID (events d))"
    using Cons.prems(2) by (simp_all add: wf_db_def)
  have a0: "0 \<le> AvailableSpots e"
    using nn Cons.prems(3) by (simp add: nonneg_def)
  have wf1: "wf_db d1"
    using wf_Register[OF Cons.prems(2), of now eid email key] reg by simp
  have dist: "distinct (map (\<lambda>q. fst (snd q)) reqs)" "distinct (map (\<lambda>q. snd (snd q)) reqs)"
    using Cons.prems(5,6) by simp_all
  show ?case
  proof (cases "0 < AvailableSpots e")
    case True
    have ex: "list_ex (\<lambda>e. ID e = eid \<and> 0 < AvailableSpots e) (events d)"
      using True Cons.prems(3,4) by (auto simp: list_ex_iff)
    have uq: "tickets_unique (tickets d) (new_ticket d now eid email key)"
      using Cons.prems(7) by (auto simp: q tickets_unique_def list_ex_iff new_ticket_def)
    have r: "r = Inr (tickets_seq d + 1)"
      and d1: "d1 = d\<lparr>events := map (\<lambda>e. if ID e = eid \<and> 0 < AvailableSpots e
                                 then e\<lparr>AvailableSpots := AvailableSpots e - 1\<rparr> else e) (events d),
               tickets := tickets d @ [new_ticket d now eid email key],
               tickets_seq := tickets_seq d + 1\<rparr>"
      using reg ex uq by (simp_all add: Register_cases[OF nn])
    let ?e1 = "e\<lparr>AvailableSpots := AvailableSpots e - 1\<rparr>"
    have m1: "?e1 \<in> set (events d1)"
      using Cons.prems(3,4) True by (force simp: d1)
    have fresh1: "\<forall>q\<in>set reqs. \<forall>t\<in>set (tickets d1).
           idempotency_key t \<noteq> snd (snd q) \<and> \<not> (event_id t = eid \<and> user_email t = fst (snd q))"
    proof (intro ballI)
      fix q' t assume q': "q' \<in> set reqs" and t: "t \<in> set (tickets d1)"
      have k: "snd (snd q') \<noteq> key" and m: "fst (snd q') \<noteq> email"
        using Cons.prems(5,6) q' by (auto simp: q)
      from t consider "t \<in> set (tickets d)" | "t = new_ticket d now eid email key"
        by (auto simp: d1)
      then show "idempotency_key t \<noteq> snd (snd q') \<and>
                 \<not> (event_id t = eid \<and> user_email t = fst (snd q'))"
      proof cases
        case 1
        then show ?thesis using Cons.prems(7) q' by simp
      next
        case 2
        then show ?thesis using k m by (auto simp: new_ticket_def)
      qed
    qed
    have id1: "ID ?e1 = eid" using Cons.prems(4) by simp
    note IH = Cons.IH[OF rest wf1 m1 id1 dist fresh1]
    have mn: "min (nat (AvailableSpots e)) (Suc (length reqs)) =
              Suc (min (nat (AvailableSpots e - 1)) (length reqs))"
      using True by (simp add: min_def) linarith
    have 1: "wf_db d'" and 2: "length rs = length reqs"
      and 3: "length (filter (\<lambda>r. \<not> isl r) rs) = min (nat (AvailableSpots e - 1)) (length reqs)"
      and 4: "length (filter (\<lambda>r. r = Inl ErrSoldOut) rs) =
           length reqs - min (nat (AvailableSpots e - 1)) (length reqs)"
      and 5: "\<exists>e'\<in>set (events d'). ID e' = eid \<and> TotalSpots e' = TotalSpots e \<and>
            AvailableSpots e' = AvailableSpots e - 1 -
              int (min (nat (AvailableSpots e - 1)) (length reqs))"
      using IH by simp_all
    have last: "\<exists>e'\<in>set (events d'). ID e' = eid \<and> TotalSpots e' = TotalSpots e \<and>
            AvailableSpots e' = AvailableSpots e -
              int (min (nat (AvailableSpots e)) (length (q # reqs)))"
      using 5 unfolding length_Cons mn by (auto simp: algebra_simps)
    show ?thesis
      using 1 2 3 4 last by (simp add: res r mn)
  next
    case False
    then have z: "AvailableSpots e = 0" using a0 by simp
    have "\<not> list_ex (\<lambda>e. ID e = eid \<and> 0 < AvailableSpots e) (events d)"
    proof
      assume "list_ex (\<lambda>e. ID e = eid \<and> 0 < AvailableSpots e) (events d)"
      then obtain e2 where e2: "e2 \<in> set (events d)" "ID e2 = eid" "0 < AvailableSpots e2"
        by (auto simp: list_ex_iff)
      then have "e2 = e"
        using distinct_ID_unique[OF dI e2(1) Cons.prems(3)] Cons.prems(4) by simp
      then show False using e2(3) z by simp
    qed
    then have r: "r = Inl ErrSoldOut" and d1: "d1 = d"
      using reg by (simp_all add: Register_cases[OF nn])
    have fresh: "\<forall>q\<in>set reqs. \<forall>t\<in>set (tickets d).
           idempotency_key t \<noteq> snd (snd q) \<and> \<not> (event_id t = eid \<and> user_email t = fst (snd q))"
      using Cons.prems(7) by simp
    note IH = Cons.IH[OF rest[unfolded d1] Cons.prems(2,3,4) dist fresh]
    show ?thesis
      using IH by (simp add: res r z)
  qed
qed

lemma register_all_active:
  "register_all d eid reqs = (res, d') \<Longrightarrow> wf_db d \<Longrightarrow>
   active_holds d' eid = active_holds d eid + length (filter (\<lambda>r. \<not> isl r) res)"
proof (induction reqs arbitrary: d res)
  case Nil
  then show ?case by auto
next
  case (Cons q reqs)
  obtain now email key where q: "q = (now, email, key)" by (cases q)
  obtain r d1 where reg: "RegisterForEvent d now eid email key = (r, d1)"
    by (cases "RegisterForEvent d now eid email key")
  obtain rs where rest: "register_all d1 eid reqs = (rs, d')" and res: "res = r # rs"
    using Cons.prems(1) by (auto simp: q reg split: prod.splits)
  have nn: "nonneg d" using Cons.prems(2) by (simp add: wf_db_def)
  have wf1: "wf_db d1"
    using wf_Register[OF Cons.prems(2), of now eid email key] reg by simp
  have step: "active_holds d1 eid = active_holds d eid + (if isl r then 0 else 1)"
    using reg unfolding Register_cases[OF nn]
    by (auto simp: active_holds_def new_ticket_def split: if_splits)
  show ?case
    using Cons.IH[OF rest wf1] step by (simp add: res)
qed

lemma distinct_ticket_filter:
  "distinct (map ticket_id ts) \<Longrightarrow> t \<in> set ts \<Longrightarrow>
   filter (\<lambda>x. ticket_id x = ticket_id t) ts = [t]"
proof (induction ts)
  case Nil
  then show ?case by simp
next
  case (Cons a ts)
  show ?case
  proof (cases "a = t")
    case True
    have "ticket_id t \<notin> ticket_id ` set ts"
      using Cons.prems(1) True by simp
    then have "\<forall>x\<in>set ts. ticket_id x \<noteq> ticket_id t"
      by (metis imageI)
    then have "filter (\<lambda>x. ticket_id x = ticket_id t) ts = []"
      by (simp add: filter_empty_conv)
    then show ?thesis using True by simp
  next
    case False
    then have m: "t \<in> set ts" using Cons.prems(2) by simp
    have "ticket_id a \<noteq> ticket_id t" using Cons.prems(1) m by auto
    then show ?thesis using Cons m by simp
  qed
qed

lemma count_without_ticket:
  assumes "distinct (map ticket_id ts)" and "t \<in> set ts"
  shows "length (filter P ts) =
           (if P t then 1 else 0) +
           length (filter (\<lambda>x. ticket_id x \<noteq> ticket_id t \<and> P x) ts)"
proof -
  have "filter (\<lambda>x. P x \<and> ticket_id x = ticket_id t) ts =
        filter P (filter (\<lambda>x. ticket_id x = ticket_id t) ts)"
    by (simp add: conj_commute)
  then have one: "length (filter (\<lambda>x. P x \<and> ticket_id x = ticket_id t) ts) = (if P t then 1 else 0)"
    by (simp add: distinct_ticket_filter[OF assms])
  have rest: "length (filter (\<lambda>x. P x \<and> \<not> ticket_id x = ticket_id t) ts) =
              length (filter (\<lambda>x. ticket_id x \<noteq> ticket_id t \<and> P x) ts)"
    by (simp add: conj_commute)
  show ?thesis
    using length_filter_split[of P ts "\<lambda>x. ticket_id x = ticket_id t"] one rest by simp
qed

section \<open>The sample stores, evaluated\<close>

lemma one_spot_db_eq:
  "one_spot_db =
     \<lparr>events = [\<lparr>ID = 1, Name = ''GopherCon'', TotalSpots = 1, AvailableSpots = 1\<rparr>],
      tickets = [], events_seq = 1, tickets_seq = 0\<rparr>"
  by (simp add: one_spot_db_def CreateEvent_def insert_event_def events_check_def empty_db_def)

lemma held_db_eq:
  "held_db =
     \<lparr>events = [\<lparr>ID = 1, Name = ''GopherCon'', TotalSpots = 1, AvailableSpots = 0\<rparr>],
      tickets = [\<lparr>ticket_id = 1, event_id = 1, user_email = ''gopher0@example.com'',
                  idempotency_key = ''key_0'', status = reserved, created_at = 0,
                  expires_at = 300\<rparr>],
      events_seq = 1, tickets_seq = 1\<rparr>"
  by (simp add: held_db_def one_spot_db_eq RegisterForEvent_def update_events_def events_check_def
        insert_ticket_def new_ticket_def tickets_unique_def)

lemma confirmed_db_eq:
  "confirmed_db =
     \<lparr>events = [\<lparr>ID = 1, Name = ''GopherCon'', TotalSpots = 1, AvailableSpots = 0\<rparr>],
      tickets = [\<lparr>ticket_id = 1, event_id = 1, user_email = ''gopher0@example.com'',
                  idempotency_key = ''key_0'', status = confirmed, created_at = 0,
                  expires_at = 300\<rparr>],
      events_seq = 1, tickets_seq = 1\<rparr>"
  by (simp add: confirmed_db_def held_db_eq ConfirmReservation_def update_tickets_def)

lemma reachable_one_spot_db: "reachable one_spot_db"
  unfolding reachable_def one_spot_db_def by (intro run.intros)

lemma reachable_held_db: "reachable held_db"
  using reachable_one_spot_db unfolding reachable_def held_db_def by (rule run_register)

lemma reachable_confirmed_db: "reachable confirmed_db"
  using reachable_held_db unfolding reachable_def confirmed_db_def by (rule run_confirm)

lemma gopher_db_eq:
  "gopher_db =
     \<lparr>events = [\<lparr>ID = 1, Name = ''The Big GopherCon'', TotalSpots = 5, AvailableSpots = 5\<rparr>],
      tickets = [], events_seq = 1, tickets_seq = 0\<rparr>"
  by (simp add: gopher_db_def CreateEvent_def insert_event_def events_check_def empty_db_def)

lemma gopher_held_db_eq:
  "gopher_held_db =
     \<lparr>events = [\<lparr>ID = 1, Name = ''The Big GopherCon'', TotalSpots = 5, AvailableSpots = 4\<rparr>],
      tickets = [\<lparr>ticket_id = 1, event_id = 1, user_email = ''gopher0@example.com'',
                  idempotency_key = ''key_0'', status = reserved, created_at = 0,
                  expires_at = 300\<rparr>],
      events_seq = 1, tickets_seq = 1\<rparr>"
  by (simp add: gopher_held_db_def gopher_db_eq RegisterForEvent_def update_events_def
        events_check_def insert_ticket_def new_ticket_def tickets_unique_def)

lemma reachable_gopher_db: "reachable gopher_db"
  unfolding reachable_def gopher_db_def by (intro run.intros)

lemma reachable_gopher_held_db: "reachable gopher_held_db"
  using reachable_gopher_db unfolding reachable_def gopher_held_db_def by (rule run_register)

lemma released_db_eq:
  "released_db =
     \<lparr>events = [\<lparr>ID = 1, Name = ''GopherCon'', TotalSpots = 1, AvailableSpots = 1\<rparr>],
      tickets = [\<lparr>ticket_id = 1, event_id = 1, user_email = ''gopher0@example.com'',
                  idempotency_key = ''key_0'', status = cancelled, created_at = 0,
                  expires_at = 300\<rparr>],
      events_seq = 1, tickets_seq = 1\<rparr>"
  by (simp add: released_db_def held_db_eq ReclaimExpiredSeats_def select_expired_def
        expired_reserved_def reclaim_one_def update_tickets_def update_events_def events_check_def)

lemma resold_db_eq:
  "resold_db =
     \<lparr>events = [\<lparr>ID = 1, Name = ''GopherCon'', TotalSpots = 1, AvailableSpots = 0\<rparr>],
      tickets = [\<lparr>ticket_id = 1, event_id = 1, user_email = ''gopher0@example.com'',
                  idempotency_key = ''key_0'', status = cancelled, created_at = 0,
                  expires_at = 300\<rparr>,
                 \<lparr>ticket_id = 2, event_id = 1, user_email = ''gopher1@example.com'',
                  idempotency_key = ''key_1'', status = reserved, created_at = 301,
                  expires_at = 601\<rparr>],
      events_seq = 1, tickets_seq = 2\<rparr>"
  by (simp add: resold_db_def released_db_eq RegisterForEvent_def update_events_def
        events_check_def insert_ticket_def new_ticket_def tickets_unique_def)

lemma reachable_released_db: "reachable released_db"
  using reachable_held_db unfolding reachable_def released_db_def by (rule run_reclaim) simp

lemma reachable_resold_db: "reachable resold_db"
  using reachable_released_db unfolding reachable_def resold_db_def by (rule run_register)

lemma gopher_two_db_eq:
  "gopher_two_db =
     \<lparr>events = [\<lparr>ID = 1, Name = ''The Big GopherCon'', TotalSpots = 5, AvailableSpots = 3\<rparr>],
      tickets = [\<lparr>ticket_id = 1, event_id = 1, user_email = ''gopher0@example.com'',
                  idempotency_key = ''key_0'', status = reserved, created_at = 0,
                  expires_at = 300\<rparr>,
                 \<lparr>ticket_id = 2, event_id = 1, user_email = ''gopher1@example.com'',
                  idempotency_key = ''key_1'', status = reserved, created_at = 10,
                  expires_at = 310\<rparr>],
      events_seq = 1, tickets_seq = 2\<rparr>"
  by (simp add: gopher_two_db_def gopher_held_db_eq RegisterForEvent_def update_events_def
        events_check_def insert_ticket_def new_ticket_def tickets_unique_def)

lemma reachable_gopher_two_db: "reachable gopher_two_db"
  using reachable_gopher_held_db unfolding reachable_def gopher_two_db_def by (rule run_register)

lemma leaked_db_eq:
  "leaked_db =
     \<lparr>events = [\<lparr>ID = 1, Name = ''GopherCon'', TotalSpots = 1, AvailableSpots = 0\<rparr>],
      tickets = [\<lparr>ticket_id = 1, event_id = 1, user_email = ''gopher0@example.com'',
                  idempotency_key = ''key_0'', status = cancelled, created_at = 0,
                  expires_at = 300\<rparr>],
      events_seq = 1, tickets_seq = 1\<rparr>"
  by (simp add: leaked_db_def held_db_eq ReclaimExpiredSeats_def select_expired_def
        expired_reserved_def reclaim_one_def update_tickets_def)

lemma reachable_leaked_db: "reachable leaked_db"
  using reachable_held_db unfolding reachable_def leaked_db_def by (rule run_reclaim) simp

lemma gopher_swept_db_eq:
  "gopher_swept_db =
     \<lparr>events = [\<lparr>ID = 1, Name = ''The Big GopherCon'', TotalSpots = 5, AvailableSpots = 4\<rparr>],
      tickets = [\<lparr>ticket_id = 1, event_id = 1, user_email = ''gopher0@example.com'',
                  idempotency_key = ''key_0'', status = cancelled, created_at = 0,
                  expires_at = 300\<rparr>,
                 \<lparr>ticket_id = 2, event_id = 1, user_email = ''gopher1@example.com'',
                  idempotency_key = ''key_1'', status = reserved, created_at = 10,
                  expires_at = 310\<rparr>],
      events_seq = 1, tickets_seq = 2\<rparr>"
  by (simp add: gopher_swept_db_def gopher_two_db_eq ReclaimExpiredSeats_def select_expired_def
        expired_reserved_def reclaim_one_def update_tickets_def update_events_def
        events_check_def)

section \<open>C1: the ledger invariant\<close>

text \<open>
  In the runs in whose reclaim cycles no statement fails, every store
  satisfies the ledger equation \<open>available_spots = total_spots - (number of
  tickets of the event with status reserved or confirmed)\<close>, for every event
  and after every operation.  In all runs, the counter is at most that
  difference.
\<close>

lemma ledger_without_failures:
  assumes "reachable_without_failures db" and "e \<in> set (events db)"
  shows "AvailableSpots e = TotalSpots e - int (active_holds db (ID e))"
proof -
  have r: "run {no_fault} empty_db db"
    using assms(1) by (simp add: reachable_without_failures_def)
  have "ledger db"
    using run_ledger[OF r wf_empty ledger_empty] .
  then show ?thesis using assms(2) by (simp add: ledger_def)
qed

lemma ledger_at_most:
  assumes "reachable db" and "e \<in> set (events db)"
  shows "AvailableSpots e \<le> TotalSpots e - int (active_holds db (ID e))"
  using reachable_wf[OF assms(1)] assms(2) by (simp add: wf_db_def ledger_le_def)

text \<open>
  C1.  The claim: in every reachable store, for every event,
  \<open>available_spots = total_spots - (number of its tickets with status
  reserved or confirmed)\<close>, after every committed operation.  The code breaks
  the equation in one place.  In the loop of ReclaimExpiredSeats the UPDATE of
  the ticket and the UPDATE of the event are not undone together: when the
  second fails, \<^verbatim>\<open>continue\<close> (under the comment "In reality we'd log this
  critical error") skips the increment, and the cancellation of the ticket is
  committed with the rest of the transaction.  Here the one-spot event has one
  lapsed reservation; after the cycle the ticket is cancelled, no ticket
  occupies a spot, and the counter is still 0 of 1.
\<close>

theorem C1_ledger_broken_by_failed_increment:
  "reachable held_db \<and>
   leaked_db = snd (ReclaimExpiredSeats (\<lambda>i. EventUpdateFails) held_db 300) \<and>
   reachable leaked_db \<and>
   events leaked_db = [\<lparr>ID = 1, Name = ''GopherCon'', TotalSpots = 1, AvailableSpots = 0\<rparr>] \<and>
   map status (tickets leaked_db) = [cancelled] \<and>
   active_holds leaked_db 1 = 0 \<and>
   AvailableSpots \<lparr>ID = 1, Name = ''GopherCon'', TotalSpots = 1, AvailableSpots = 0\<rparr> \<noteq>
     TotalSpots \<lparr>ID = 1, Name = ''GopherCon'', TotalSpots = 1, AvailableSpots = 0\<rparr> -
     int (active_holds leaked_db
            (ID \<lparr>ID = 1, Name = ''GopherCon'', TotalSpots = 1, AvailableSpots = 0\<rparr>))"
proof -
  have a: "active_holds leaked_db 1 = 0"
    by (simp add: leaked_db_eq active_holds_def)
  have e: "events leaked_db =
      [\<lparr>ID = 1, Name = ''GopherCon'', TotalSpots = 1, AvailableSpots = 0\<rparr>]"
    and s: "map status (tickets leaked_db) = [cancelled]"
    by (simp_all add: leaked_db_eq)
  show ?thesis
    using reachable_held_db reachable_leaked_db leaked_db_def a e s by simp
qed

section \<open>C2: a batch of registrations for a new event\<close>

text \<open>
  C2, as stated, asks only that the idempotency keys of the batch differ from
  each other.  The uniqueness constraint on \<^verbatim>\<open>idempotency_key\<close> spans the whole
  table: a key that a ticket of another event already carries makes the
  registration fail with ErrAlreadyRegistered.  Here an event with one spot is
  created next to the five-spot event, and the one registration of the batch
  reuses \<open>key_0\<close>: nobody gets the spot.
\<close>

theorem C2_key_of_other_event_counterexample:
  "map idempotency_key (tickets gopher_held_db) = [''key_0''] \<and>
   map event_id (tickets gopher_held_db) = [1] \<and>
   fst (CreateEvent gopher_held_db ''Workshop'' 1) =
     Inr \<lparr>ID = 2, Name = ''Workshop'', TotalSpots = 1, AvailableSpots = 1\<rparr> \<and>
   register_all (snd (CreateEvent gopher_held_db ''Workshop'' 1)) 2
       [(20, ''gopher7@example.com'', ''key_0'')] =
     ([Inl ErrAlreadyRegistered], snd (CreateEvent gopher_held_db ''Workshop'' 1))"
  by (simp add: gopher_held_db_eq CreateEvent_def insert_event_def events_check_def
        RegisterForEvent_def update_events_def insert_ticket_def new_ticket_def
        tickets_unique_def)

text \<open>
  C2, amended.  Let an event be created with capacity \<open>C\<close> on a reachable
  store, and let \<open>N \<ge> C\<close> registrations for it follow, in any order of
  arrival and at any times, with pairwise distinct e-mail addresses and
  pairwise distinct idempotency keys none of which is carried by a ticket
  already in the store.  Then exactly \<open>C\<close> of the calls return a ticket id and
  exactly \<open>N - C\<close> return ErrSoldOut (so no call returns anything else);
  afterwards the event has 0 available spots and exactly \<open>C\<close> tickets with
  status reserved or confirmed.
\<close>

theorem C2_no_overbooking:
  assumes "reachable db0"
    and "CreateEvent db0 name capacity = (Inr ev, db)"
    and "distinct (map (\<lambda>q. fst (snd q)) reqs)"
    and "distinct (map (\<lambda>q. snd (snd q)) reqs)"
    and "\<forall>q\<in>set reqs. snd (snd q) \<notin> idempotency_key ` set (tickets db0)"
    and "capacity \<le> int (length reqs)"
    and "register_all db (ID ev) reqs = (results, db')"
  shows "length results = length reqs \<and>
         length (filter (\<lambda>r. \<not> isl r) results) = nat capacity \<and>
         length (filter (\<lambda>r. r = Inl ErrSoldOut) results) = length reqs - nat capacity \<and>
         (\<exists>e'\<in>set (events db'). ID e' = ID ev) \<and>
         (\<forall>e'\<in>set (events db'). ID e' = ID ev \<longrightarrow> AvailableSpots e' = 0) \<and>
         active_holds db' (ID ev) = nat capacity"
proof -
  have wf0: "wf_db db0" using assms(1) by (rule reachable_wf)
  have c0: "0 \<le> capacity"
  proof (rule ccontr)
    assume "\<not> 0 \<le> capacity"
    then have "CreateEvent db0 name capacity = (Inl (ErrStore CheckFailed), db0)"
      by (simp add: CreateEvent_fail)
    then show False using assms(2) by simp
  qed
  let ?row = "\<lparr>ID = events_seq db0 + 1, Name = name, TotalSpots = capacity,
               AvailableSpots = capacity\<rparr>"
  have ev: "ev = ?row"
    and db: "db = db0\<lparr>events := events db0 @ [?row], events_seq := events_seq db0 + 1\<rparr>"
    using assms(2) unfolding CreateEvent_ok[OF c0] by auto
  have wf: "wf_db db"
    using wf_CreateEvent[OF wf0, of name capacity] assms(2) by simp
  have m: "?row \<in> set (events db)" by (simp add: db)
  have le: "\<forall>e\<in>set (events db0). ID e \<le> events_seq db0"
    and own: "\<forall>t\<in>set (tickets db0). event_id t \<in> ID ` set (events db0)"
    using wf0 by (simp_all add: wf_db_def)
  have none: "\<forall>t\<in>set (tickets db0). event_id t \<noteq> events_seq db0 + 1"
    using le own by fastforce
  have fresh: "\<forall>q\<in>set reqs. \<forall>t\<in>set (tickets db).
      idempotency_key t \<noteq> snd (snd q) \<and>
      \<not> (event_id t = events_seq db0 + 1 \<and> user_email t = fst (snd q))"
    using assms(5) none by (force simp: db)
  have reg: "register_all db (events_seq db0 + 1) reqs = (results, db')"
    using assms(7) by (simp add: ev)
  have idr: "ID ?row = events_seq db0 + 1" by simp
  note R = register_all_counts[OF reg wf m idr assms(3,4) fresh]
  have mn: "min (nat capacity) (length reqs) = nat capacity"
    using assms(6) c0 by simp
  have wf': "wf_db db'" and 1: "length results = length reqs"
    and 2: "length (filter (\<lambda>r. \<not> isl r) results) = nat capacity"
    and 3: "length (filter (\<lambda>r. r = Inl ErrSoldOut) results) = length reqs - nat capacity"
    using R by (simp_all add: mn)
  obtain e' where e': "e' \<in> set (events db')" "ID e' = events_seq db0 + 1"
    "TotalSpots e' = capacity" "AvailableSpots e' = 0"
    using R c0 by (auto simp: mn)
  have dI: "distinct (map ID (events db'))"
    using wf' by (simp add: wf_db_def)
  have 4: "\<exists>e'\<in>set (events db'). ID e' = ID ev"
    using e'(1,2) by (auto simp: ev)
  have 5: "\<forall>x\<in>set (events db'). ID x = ID ev \<longrightarrow> AvailableSpots x = 0"
  proof (intro ballI impI)
    fix x assume "x \<in> set (events db')" "ID x = ID ev"
    then have "x = e'"
      using distinct_ID_unique[OF dI _ e'(1)] e'(2) by (simp add: ev)
    then show "AvailableSpots x = 0" using e'(4) by simp
  qed
  have "active_holds db (events_seq db0 + 1) = 0"
    using none by (auto simp: active_holds_def db filter_empty_conv)
  then have 6: "active_holds db' (ID ev) = nat capacity"
    using register_all_active[OF reg wf] 2 by (simp add: ev)
  show ?thesis
    by (intro conjI 1 2 3 4 5 6)
qed

theorem C2_no_overbooking_witness:
  "reachable empty_db \<and>
   CreateEvent empty_db ''GopherCon'' 1 =
     (Inr \<lparr>ID = 1, Name = ''GopherCon'', TotalSpots = 1, AvailableSpots = 1\<rparr>, one_spot_db) \<and>
   register_all one_spot_db 1
       [(0, ''gopher0@example.com'', ''key_0''), (1, ''gopher1@example.com'', ''key_1'')] =
     ([Inr 1, Inl ErrSoldOut], held_db) \<and>
   length (filter (\<lambda>r. \<not> isl r) [Inr 1, Inl ErrSoldOut :: error + int]) = 1 \<and>
   length (filter (\<lambda>r. r = Inl ErrSoldOut) [Inr 1, Inl ErrSoldOut :: error + int]) = 1 \<and>
   active_holds held_db 1 = 1"
proof -
  let ?ev = "\<lparr>ID = 1, Name = ''GopherCon'', TotalSpots = 1, AvailableSpots = 1\<rparr>"
  let ?reqs = "[(0::nat, ''gopher0@example.com'', ''key_0''), (1, ''gopher1@example.com'', ''key_1'')]"
  have r0: "reachable empty_db"
    unfolding reachable_def by (rule run_refl)
  have cr: "CreateEvent empty_db ''GopherCon'' 1 = (Inr ?ev, one_spot_db)"
    by (simp add: one_spot_db_eq CreateEvent_def insert_event_def events_check_def empty_db_def)
  have d1: "distinct (map (\<lambda>q. fst (snd q)) ?reqs)" and d2: "distinct (map (\<lambda>q. snd (snd q)) ?reqs)"
    by simp_all
  have fr: "\<forall>q\<in>set ?reqs. snd (snd q) \<notin> idempotency_key ` set (tickets empty_db)"
    by (simp add: empty_db_def)
  have n: "(1::int) \<le> int (length ?reqs)" by simp
  have ra: "register_all one_spot_db (ID ?ev) ?reqs = ([Inr 1, Inl ErrSoldOut], held_db)"
    by (simp add: one_spot_db_eq held_db_eq RegisterForEvent_def update_events_def
          events_check_def insert_ticket_def new_ticket_def tickets_unique_def)
  note t = C2_no_overbooking[OF r0 cr d1 d2 fr n ra]
  have ra': "register_all one_spot_db 1 ?reqs = ([Inr 1, Inl ErrSoldOut], held_db)"
    using ra by simp
  have 2: "length (filter (\<lambda>r. \<not> isl r) [Inr 1, Inl ErrSoldOut :: error + int]) = 1"
    using t by simp
  have 3: "length (filter (\<lambda>r. r = Inl ErrSoldOut) [Inr 1, Inl ErrSoldOut :: error + int]) = 1"
    using t by simp
  have 6: "active_holds held_db 1 = 1"
    using t by simp
  show ?thesis
    by (intro conjI r0 cr ra' 2 3 6)
qed

section \<open>C3: what a reclaim cycle does\<close>

text \<open>
  A reclaim cycle on a reachable store, in closed form, whatever statements
  fail in it.  The tickets selected are those that are reserved with
  \<open>expires_at \<le> now\<close>; such a ticket ends cancelled unless its own UPDATE
  fails, and every other ticket is left as it is (the UPDATE of the loop has no
  condition on the status, but the candidates are selected in the same
  transaction, on the only connection, so each is still reserved when the loop
  reaches it).  The counter of an event grows by the number of its candidates
  for which neither statement fails, and the count returned is the number of
  those candidates over all events.  A failing statement ends the iteration of
  its own candidate only.
\<close>

lemma Reclaim_closed_form:
  assumes "reachable db"
  shows "tickets (snd (ReclaimExpiredSeats flt db now)) =
           map (\<lambda>t. if expired_reserved now t \<and> flt (ticket_id t) \<noteq> TicketUpdateFails
                     then t\<lparr>status := cancelled\<rparr> else t) (tickets db) \<and>
         events (snd (ReclaimExpiredSeats flt db now)) =
           map (\<lambda>e. e\<lparr>AvailableSpots := AvailableSpots e +
                  int (length (filter (\<lambda>t. expired_reserved now t \<and> event_id t = ID e \<and>
                                           flt (ticket_id t) = NoFault) (tickets db)))\<rparr>)
             (events db) \<and>
         fst (ReclaimExpiredSeats flt db now) =
           int (length (filter (\<lambda>t. expired_reserved now t \<and> flt (ticket_id t) = NoFault)
                          (tickets db)))"
proof -
  have wf: "wf_db db" using assms by (rule reachable_wf)
  then have d: "distinct (map ticket_id (tickets db))" and nn: "nonneg db"
    by (simp_all add: wf_db_def)
  show ?thesis
    using Reclaim_tickets[OF d] Reclaim_events[OF nn] Reclaim_count[OF nn] by blast
qed

text \<open>
  C3.  The claim: each expired pending candidate is processed as its own
  atomic unit, in which the hold goes from reserved to cancelled and then the
  counter of its event is incremented; a candidate whose transition does not
  happen gets no increment; a failure on one candidate does not stop the
  others.  The code keeps the last two parts and misses the first: the two
  statements of a candidate are not a unit.  When the UPDATE of the event
  fails, \<^verbatim>\<open>continue\<close> leaves the ticket cancelled, and the transaction of the
  whole cycle commits it.  Here two reservations of the five-spot event have
  lapsed and the UPDATE of the event fails for ticket 1: both tickets end
  cancelled, the counter goes from 3 to 4 only, and the cycle reports 1.
\<close>

theorem C3_candidate_unit_not_atomic:
  "reachable gopher_two_db \<and>
   map status (tickets gopher_two_db) = [reserved, reserved] \<and>
   map expires_at (tickets gopher_two_db) = [300, 310] \<and>
   map AvailableSpots (events gopher_two_db) = [3] \<and>
   ReclaimExpiredSeats (\<lambda>i. if i = 1 then EventUpdateFails else NoFault) gopher_two_db 400 =
     (1, \<lparr>events = [\<lparr>ID = 1, Name = ''The Big GopherCon'', TotalSpots = 5,
                      AvailableSpots = 4\<rparr>],
          tickets = [\<lparr>ticket_id = 1, event_id = 1, user_email = ''gopher0@example.com'',
                      idempotency_key = ''key_0'', status = cancelled, created_at = 0,
                      expires_at = 300\<rparr>,
                     \<lparr>ticket_id = 2, event_id = 1, user_email = ''gopher1@example.com'',
                      idempotency_key = ''key_1'', status = cancelled, created_at = 10,
                      expires_at = 310\<rparr>],
          events_seq = 1, tickets_seq = 2\<rparr>)"
proof -
  have "ReclaimExpiredSeats (\<lambda>i. if i = 1 then EventUpdateFails else NoFault) gopher_two_db 400 =
     (1, \<lparr>events = [\<lparr>ID = 1, Name = ''The Big GopherCon'', TotalSpots = 5,
                      AvailableSpots = 4\<rparr>],
          tickets = [\<lparr>ticket_id = 1, event_id = 1, user_email = ''gopher0@example.com'',
                      idempotency_key = ''key_0'', status = cancelled, created_at = 0,
                      expires_at = 300\<rparr>,
                     \<lparr>ticket_id = 2, event_id = 1, user_email = ''gopher1@example.com'',
                      idempotency_key = ''key_1'', status = cancelled, created_at = 10,
                      expires_at = 310\<rparr>],
          events_seq = 1, tickets_seq = 2\<rparr>)"
    by (simp add: gopher_two_db_eq ReclaimExpiredSeats_def select_expired_def
          expired_reserved_def reclaim_one_def update_tickets_def update_events_def
          events_check_def)
  moreover have "map status (tickets gopher_two_db) = [reserved, reserved]"
    "map expires_at (tickets gopher_two_db) = [300, 310]"
    "map AvailableSpots (events gopher_two_db) = [3]"
    by (simp_all add: gopher_two_db_eq)
  ultimately show ?thesis
    using reachable_gopher_two_db by simp
qed

section \<open>C4: a duplicate submission is rolled back\<close>

text \<open>
  C4.  Let RegisterForEvent be called on a reachable store for an event that
  has a spot left, with an idempotency key that some ticket already carries or
  an e-mail address that already has a ticket for that event.  Then step 1
  does decrement the counter inside the transaction, the INSERT of step 2 fails
  on a uniqueness constraint, and RegisterForEvent returns
  ErrAlreadyRegistered together with the store exactly as it was before the
  call: the counter and the tickets are unchanged.
\<close>

theorem C4_duplicate_aborts:
  assumes "reachable db"
    and "\<exists>e\<in>set (events db). ID e = eventID \<and> 0 < AvailableSpots e"
    and "(\<exists>t\<in>set (tickets db). idempotency_key t = idempotencyKey) \<or>
         (\<exists>t\<in>set (tickets db). event_id t = eventID \<and> user_email t = email)"
  shows "(\<exists>tx1 rows.
            update_events (\<lambda>e. ID e = eventID \<and> 0 < AvailableSpots e)
              (\<lambda>e. e\<lparr>AvailableSpots := AvailableSpots e - 1\<rparr>) db = Inr (tx1, rows) \<and>
            0 < rows \<and> events tx1 \<noteq> events db \<and>
            insert_ticket tx1 now eventID email idempotencyKey = Inl UniqueFailed) \<and>
         RegisterForEvent db now eventID email idempotencyKey = (Inl ErrAlreadyRegistered, db)"
proof -
  have nn: "nonneg db"
    using reachable_wf[OF assms(1)] by (simp add: wf_db_def)
  let ?wh = "\<lambda>e. ID e = eventID \<and> 0 < AvailableSpots e"
  let ?dec = "\<lambda>e. if ?wh e then e\<lparr>AvailableSpots := AvailableSpots e - 1\<rparr> else e"
  let ?tx1 = "db\<lparr>events := map ?dec (events db)\<rparr>"
  obtain e where e: "e \<in> set (events db)" "?wh e"
    using assms(2) by auto
  have rows: "0 < length (filter ?wh (events db))"
    using e by (auto simp: filter_empty_conv)
  have changed: "events ?tx1 \<noteq> events db"
  proof
    assume "events ?tx1 = events db"
    then have "map ?dec (events db) = map (\<lambda>e. e) (events db)" by simp
    then have "?dec e = e" using e(1) unfolding map_eq_conv by blast
    then have "AvailableSpots (?dec e) = AvailableSpots e" by simp
    then show False using e(2) by simp
  qed
  have dup: "\<not> tickets_unique (tickets ?tx1) (new_ticket ?tx1 now eventID email idempotencyKey)"
    using assms(3) by (auto simp: tickets_unique_def list_ex_iff new_ticket_def)
  then have ins: "insert_ticket ?tx1 now eventID email idempotencyKey = Inl UniqueFailed"
    by (simp add: insert_ticket_def)
  have dup': "\<not> tickets_unique (tickets db) (new_ticket db now eventID email idempotencyKey)"
    using assms(3) by (auto simp: tickets_unique_def list_ex_iff new_ticket_def)
  have ex: "list_ex ?wh (events db)"
    using e by (auto simp: list_ex_iff)
  have reg: "RegisterForEvent db now eventID email idempotencyKey = (Inl ErrAlreadyRegistered, db)"
    using ex dup' by (simp add: Register_cases[OF nn])
  show ?thesis
    using update_events_dec[OF nn, of eventID] rows changed ins reg by blast
qed

theorem C4_duplicate_aborts_witness:
  "reachable gopher_held_db \<and>
   (\<exists>e\<in>set (events gopher_held_db). ID e = 1 \<and> 0 < AvailableSpots e) \<and>
   (\<exists>t\<in>set (tickets gopher_held_db). idempotency_key t = ''key_0'') \<and>
   RegisterForEvent gopher_held_db 7 1 ''gopher0@example.com'' ''key_0'' =
     (Inl ErrAlreadyRegistered, gopher_held_db)"
proof -
  have a: "\<exists>e\<in>set (events gopher_held_db). ID e = 1 \<and> 0 < AvailableSpots e"
    by (simp add: gopher_held_db_eq)
  have b: "\<exists>t\<in>set (tickets gopher_held_db). idempotency_key t = ''key_0''"
    by (simp add: gopher_held_db_eq)
  have c: "(\<exists>t\<in>set (tickets gopher_held_db). idempotency_key t = ''key_0'') \<or>
         (\<exists>t\<in>set (tickets gopher_held_db). event_id t = 1 \<and> user_email t = ''gopher0@example.com'')"
    using b by blast
  show ?thesis
    using C4_duplicate_aborts[OF reachable_gopher_held_db a c, of 7] reachable_gopher_held_db a b
    by blast
qed

section \<open>C5: repeating a registration\<close>

text \<open>
  C5, as stated, has every repetition of a registration return
  AlreadyRegistered.  The capacity check comes first: when the first call took
  the last spot, the repetition returns ErrSoldOut.
\<close>

theorem C5_repeat_sold_out_counterexample:
  "RegisterForEvent one_spot_db 0 1 ''gopher0@example.com'' ''key_0'' = (Inr 1, held_db) \<and>
   RegisterForEvent held_db 1 1 ''gopher0@example.com'' ''key_0'' = (Inl ErrSoldOut, held_db)"
  by (simp add: one_spot_db_eq held_db_eq RegisterForEvent_def update_events_def
        events_check_def insert_ticket_def new_ticket_def tickets_unique_def)

text \<open>
  C5, amended.  Let a registration succeed on a reachable store.  Then the
  store holds exactly one ticket with that idempotency key and exactly one for
  that event and e-mail address, and the counter of the (one) event with that
  id went down by exactly one.  Every repetition of the call with the same key
  and the same e-mail address, at any later times and any number of times,
  leaves the store identical to the store after the first call, and each of them
  fails: with ErrAlreadyRegistered while the event still has an available spot,
  with ErrSoldOut when it has none.
\<close>

theorem C5_repeat_register:
  assumes "reachable db"
    and "RegisterForEvent db now eventID email idempotencyKey = (Inr ticketID, db1)"
  shows "length (filter (\<lambda>t. idempotency_key t = idempotencyKey) (tickets db1)) = 1 \<and>
         length (filter (\<lambda>t. event_id t = eventID \<and> user_email t = email) (tickets db1)) = 1 \<and>
         length (filter (\<lambda>e. ID e = eventID) (events db)) = 1 \<and>
         events db1 =
           map (\<lambda>e. if ID e = eventID then e\<lparr>AvailableSpots := AvailableSpots e - 1\<rparr> else e)
             (events db) \<and>
         (\<forall>reqs. (\<forall>q\<in>set reqs. snd q = (email, idempotencyKey)) \<longrightarrow>
            register_all db1 eventID reqs =
              (replicate (length reqs)
                 (Inl (if \<exists>e\<in>set (events db1). ID e = eventID \<and> 0 < AvailableSpots e
                       then ErrAlreadyRegistered else ErrSoldOut)), db1))"
proof -
  have wf: "wf_db db" using assms(1) by (rule reachable_wf)
  then have nn: "nonneg db" and d: "distinct (map ID (events db))"
    by (simp_all add: wf_db_def)
  note S = Register_success[OF nn assms(2)]
  let ?new = "new_ticket db now eventID email idempotencyKey"
  have uq: "\<forall>t\<in>set (tickets db). idempotency_key t \<noteq> idempotencyKey"
    "\<forall>t\<in>set (tickets db). \<not> (event_id t = eventID \<and> user_email t = email)"
    using S(2) by (auto simp: tickets_unique_def list_ex_iff new_ticket_def)
  have T: "tickets db1 = tickets db @ [?new]" and E: "events db1 =
      map (\<lambda>e. if ID e = eventID \<and> 0 < AvailableSpots e
                then e\<lparr>AvailableSpots := AvailableSpots e - 1\<rparr> else e) (events db)"
    by (simp_all add: S(4))
  have 1: "length (filter (\<lambda>t. idempotency_key t = idempotencyKey) (tickets db1)) = 1"
    using uq(1) by (simp add: T new_ticket_def filter_empty_conv[THEN iffD2])
  have 2: "length (filter (\<lambda>t. event_id t = eventID \<and> user_email t = email) (tickets db1)) = 1"
    using uq(2) by (simp add: T new_ticket_def filter_empty_conv[THEN iffD2])
  obtain e0 where e0: "e0 \<in> set (events db)" "ID e0 = eventID" "0 < AvailableSpots e0"
    using S(1) by (auto simp: list_ex_iff)
  have 3: "length (filter (\<lambda>e. ID e = eventID) (events db)) = 1"
    using distinct_ID_count[OF d e0(1)] e0(2) by simp
  have 4: "events db1 =
           map (\<lambda>e. if ID e = eventID then e\<lparr>AvailableSpots := AvailableSpots e - 1\<rparr> else e)
             (events db)"
    unfolding E by (rule dec_map_distinct[OF d e0])
  have nn1: "nonneg db1"
    using wf_Register[OF wf, of now eventID email idempotencyKey] assms(2) by (simp add: wf_db_def)
  have dup: "\<not> tickets_unique (tickets db1) (new_ticket db1 now' eventID email idempotencyKey)" for now'
    by (simp add: T tickets_unique_def new_ticket_def)
  have again: "RegisterForEvent db1 now' eventID email idempotencyKey =
      (Inl (if \<exists>e\<in>set (events db1). ID e = eventID \<and> 0 < AvailableSpots e
            then ErrAlreadyRegistered else ErrSoldOut), db1)" for now'
    using dup[of now'] by (simp add: Register_cases[OF nn1] list_ex_iff)
  have 5: "\<forall>reqs. (\<forall>q\<in>set reqs. snd q = (email, idempotencyKey)) \<longrightarrow>
            register_all db1 eventID reqs =
              (replicate (length reqs)
                 (Inl (if \<exists>e\<in>set (events db1). ID e = eventID \<and> 0 < AvailableSpots e
                       then ErrAlreadyRegistered else ErrSoldOut)), db1)"
    using register_all_same[OF again] by blast
  show ?thesis
    using 1 2 3 4 5 by blast
qed

theorem C5_repeat_register_witness:
  "reachable gopher_db \<and>
   RegisterForEvent gopher_db 0 1 ''gopher0@example.com'' ''key_0'' = (Inr 1, gopher_held_db) \<and>
   length (filter (\<lambda>t. idempotency_key t = ''key_0'') (tickets gopher_held_db)) = 1 \<and>
   length (filter (\<lambda>t. event_id t = 1 \<and> user_email t = ''gopher0@example.com'')
             (tickets gopher_held_db)) = 1 \<and>
   events gopher_held_db =
     map (\<lambda>e. if ID e = 1 then e\<lparr>AvailableSpots := AvailableSpots e - 1\<rparr> else e)
       (events gopher_db) \<and>
   register_all gopher_held_db 1
       [(1, ''gopher0@example.com'', ''key_0''), (400, ''gopher0@example.com'', ''key_0'')] =
     ([Inl ErrAlreadyRegistered, Inl ErrAlreadyRegistered], gopher_held_db)"
proof -
  have reg: "RegisterForEvent gopher_db 0 1 ''gopher0@example.com'' ''key_0'' = (Inr 1, gopher_held_db)"
    by (simp add: gopher_db_eq gopher_held_db_eq RegisterForEvent_def update_events_def
          events_check_def insert_ticket_def new_ticket_def tickets_unique_def)
  note t = C5_repeat_register[OF reachable_gopher_db reg]
  have spot: "\<exists>e\<in>set (events gopher_held_db). ID e = 1 \<and> 0 < AvailableSpots e"
    by (simp add: gopher_held_db_eq)
  have every: "register_all gopher_held_db 1 reqs =
     (replicate (length reqs)
        (Inl (if \<exists>e\<in>set (events gopher_held_db). ID e = 1 \<and> 0 < AvailableSpots e
              then ErrAlreadyRegistered else ErrSoldOut)), gopher_held_db)"
    if "\<forall>q\<in>set reqs. snd q = (''gopher0@example.com'', ''key_0'')" for reqs
    using t that by blast
  have "register_all gopher_held_db 1
       [(1, ''gopher0@example.com'', ''key_0''), (400, ''gopher0@example.com'', ''key_0'')] =
     (replicate (length [(1::nat, ''gopher0@example.com'', ''key_0''),
                         (400, ''gopher0@example.com'', ''key_0'')])
        (Inl (if \<exists>e\<in>set (events gopher_held_db). ID e = 1 \<and> 0 < AvailableSpots e
              then ErrAlreadyRegistered else ErrSoldOut)), gopher_held_db)"
    by (rule every) simp
  then have rep: "register_all gopher_held_db 1
       [(1, ''gopher0@example.com'', ''key_0''), (400, ''gopher0@example.com'', ''key_0'')] =
     ([Inl ErrAlreadyRegistered, Inl ErrAlreadyRegistered], gopher_held_db)"
    using spot by (simp add: numeral_2_eq_2)
  show ?thesis
    using reachable_gopher_db reg t rep by blast
qed

section \<open>C6: confirming a reservation\<close>

text \<open>
  C6.  ConfirmReservation succeeds exactly when the store has a ticket with
  the given id whose e-mail address is the given one, whose status is reserved
  and whose expires_at is later than the current time.  In every other case it
  returns the error and the store it was given.  It turns the matching tickets
  to confirmed and nothing else, and it never touches the table of events.
\<close>

theorem C6_confirm:
  "(fst (ConfirmReservation db now ticketID userEmail) = None) =
     (\<exists>t\<in>set (tickets db). ticket_id t = ticketID \<and> user_email t = userEmail \<and>
         status t = reserved \<and> now < expires_at t) \<and>
   (fst (ConfirmReservation db now ticketID userEmail) = None \<or>
    ConfirmReservation db now ticketID userEmail = (Some ErrNotConfirmable, db)) \<and>
   tickets (snd (ConfirmReservation db now ticketID userEmail)) =
     map (\<lambda>t. if ticket_id t = ticketID \<and> user_email t = userEmail \<and>
                  status t = reserved \<and> now < expires_at t
               then t\<lparr>status := confirmed\<rparr> else t) (tickets db) \<and>
   events (snd (ConfirmReservation db now ticketID userEmail)) = events db"
proof (cases "list_ex (\<lambda>t. ticket_id t = ticketID \<and> user_email t = userEmail \<and>
                 status t = reserved \<and> now < expires_at t) (tickets db)")
  case True
  then show ?thesis
    by (simp add: Confirm_cases) (simp add: list_ex_iff)
next
  case False
  then have "map (\<lambda>t. if ticket_id t = ticketID \<and> user_email t = userEmail \<and>
                  status t = reserved \<and> now < expires_at t
               then t\<lparr>status := confirmed\<rparr> else t) (tickets db) = tickets db"
    by (intro map_idI) (auto simp: list_ex_iff)
  with False show ?thesis
    by (simp add: Confirm_cases) (simp add: list_ex_iff)
qed

section \<open>C7: a lapsed reservation is reclaimed once\<close>

text \<open>
  C7, as stated, has the reclaim cycle return the counter of the event to its
  value before the registration.  The cycle reclaims every lapsed reservation
  of the event, not only this one: here the counter is 4 before the second
  registration and 5 after the cycle.
\<close>

theorem C7_other_lapsed_holds_counterexample:
  "map AvailableSpots (events gopher_held_db) = [4] \<and>
   RegisterForEvent gopher_held_db 10 1 ''gopher1@example.com'' ''key_1'' = (Inr 2, gopher_two_db) \<and>
   map AvailableSpots (events (snd (ReclaimExpiredSeats no_fault gopher_two_db 310))) = [5]"
proof -
  have "map AvailableSpots (events gopher_held_db) = [4]"
    by (simp add: gopher_held_db_eq)
  moreover have "RegisterForEvent gopher_held_db 10 1 ''gopher1@example.com'' ''key_1'' =
      (Inr 2, gopher_two_db)"
    by (simp add: gopher_held_db_eq gopher_two_db_eq RegisterForEvent_def update_events_def
          events_check_def insert_ticket_def new_ticket_def tickets_unique_def)
  moreover have "map AvailableSpots (events (snd (ReclaimExpiredSeats no_fault gopher_two_db 310))) = [5]"
    by (simp add: gopher_two_db_eq ReclaimExpiredSeats_def select_expired_def
          expired_reserved_def reclaim_one_def update_tickets_def update_events_def
          events_check_def)
  ultimately show ?thesis by (intro conjI)
qed

text \<open>
  C7, amended.  Let a registration at time \<open>t0\<close> succeed on a reachable
  store; it takes exactly one unit from the counter of the event and creates
  the hold, reserved, with deadline \<open>t0 + 300\<close>.  Let any operations follow
  (other registrations, confirmations, creations of events, reclaim cycles with
  or without failing statements) that leave the hold as it was created, that is,
  never confirmed and not yet reclaimed.  Let then a reclaim cycle run at a
  time \<open>now \<ge> t0 + 300\<close> in which the two statements for this hold do not
  fail.  Then the cycle cancels the hold and gives its event exactly one unit
  for it: the counter of every event after the cycle is its value before the
  cycle, plus one for the event of the hold, plus the number of the event's
  other lapsed reservations for which no statement failed.  In every store
  that any further operations lead to, the hold is still cancelled, confirming
  it fails for every e-mail address and time, and no reclaim cycle selects it
  again.
\<close>

theorem C7_lapsed_hold_reclaimed_once:
  assumes "reachable db0"
    and "RegisterForEvent db0 t0 eventID email idempotencyKey = (Inr ticketID, db1)"
    and "run UNIV db1 db"
    and "new_ticket db0 t0 eventID email idempotencyKey \<in> set (tickets db)"
    and "t0 + 300 \<le> now"
    and "flt ticketID = NoFault"
    and "db2 = snd (ReclaimExpiredSeats flt db now)"
    and "run UNIV db2 db3"
  shows "ticket_id (new_ticket db0 t0 eventID email idempotencyKey) = ticketID \<and>
         events db1 =
           map (\<lambda>e. if ID e = eventID then e\<lparr>AvailableSpots := AvailableSpots e - 1\<rparr> else e)
             (events db0) \<and>
         (new_ticket db0 t0 eventID email idempotencyKey)\<lparr>status := cancelled\<rparr>
           \<in> set (tickets db2) \<and>
         events db2 =
           map (\<lambda>e. e\<lparr>AvailableSpots := AvailableSpots e + (if ID e = eventID then 1 else 0) +
                  int (length (filter (\<lambda>t. ticket_id t \<noteq> ticketID \<and> expired_reserved now t \<and>
                                           event_id t = ID e \<and> flt (ticket_id t) = NoFault)
                                 (tickets db)))\<rparr>)
             (events db) \<and>
         (new_ticket db0 t0 eventID email idempotencyKey)\<lparr>status := cancelled\<rparr>
           \<in> set (tickets db3) \<and>
         (\<forall>now' userEmail.
            ConfirmReservation db3 now' ticketID userEmail = (Some ErrNotConfirmable, db3)) \<and>
         (\<forall>now'. ticketID \<notin> fst ` set (select_expired db3 now'))"
proof -
  let ?new = "new_ticket db0 t0 eventID email idempotencyKey"
  let ?c = "?new\<lparr>status := cancelled\<rparr>"
  have wf0: "wf_db db0" using assms(1) by (rule reachable_wf)
  then have nn0: "nonneg db0" and dI: "distinct (map ID (events db0))"
    by (simp_all add: wf_db_def)
  note S = Register_success[OF nn0 assms(2)]
  have wf1: "wf_db db1"
    using wf_Register[OF wf0, of t0 eventID email idempotencyKey] assms(2) by simp
  have wf: "wf_db db"
    using assms(3) wf1 by (rule run_wf)
  then have nn: "nonneg db" and d: "distinct (map ticket_id (tickets db))"
    by (simp_all add: wf_db_def)
  have wf2: "wf_db db2"
    unfolding assms(7) using wf by (rule wf_Reclaim)
  have wf3: "wf_db db3"
    using assms(8) wf2 by (rule run_wf)
  then have d3: "distinct (map ticket_id (tickets db3))" by (simp add: wf_db_def)
  have 1: "ticket_id ?new = ticketID"
    by (simp add: new_ticket_def S(3))
  obtain e0 where e0: "e0 \<in> set (events db0)" "ID e0 = eventID" "0 < AvailableSpots e0"
    using S(1) by (auto simp: list_ex_iff)
  have "events db1 =
      map (\<lambda>e. if ID e = eventID \<and> 0 < AvailableSpots e
                then e\<lparr>AvailableSpots := AvailableSpots e - 1\<rparr> else e) (events db0)"
    by (simp add: S(4))
  then have 2: "events db1 =
      map (\<lambda>e. if ID e = eventID then e\<lparr>AvailableSpots := AvailableSpots e - 1\<rparr> else e)
        (events db0)"
    by (simp only: dec_map_distinct[OF dI e0])
  have lapsed: "expired_reserved now ?new"
    using assms(5) by (simp add: expired_reserved_def new_ticket_def)
  let ?g = "\<lambda>t. if expired_reserved now t \<and> flt (ticket_id t) \<noteq> TicketUpdateFails
               then t\<lparr>status := cancelled\<rparr> else t"
  have T2: "tickets db2 = map ?g (tickets db)"
    unfolding assms(7) by (rule Reclaim_tickets[OF d])
  have g: "?g ?new = ?c"
    using lapsed assms(6) 1 by simp
  have "?g ?new \<in> set (map ?g (tickets db))"
    using assms(4) by (rule imageI[of ?new "set (tickets db)" ?g, folded set_map])
  then have 3: "?c \<in> set (tickets db2)"
    by (simp only: g T2)
  have E2: "events db2 =
      map (\<lambda>e. e\<lparr>AvailableSpots := AvailableSpots e +
             int (length (filter (\<lambda>t. expired_reserved now t \<and> event_id t = ID e \<and>
                                      flt (ticket_id t) = NoFault) (tickets db)))\<rparr>)
        (events db)"
    unfolding assms(7) by (rule Reclaim_events[OF nn])
  have cnt: "length (filter (\<lambda>t. expired_reserved now t \<and> event_id t = i \<and>
                                 flt (ticket_id t) = NoFault) (tickets db)) =
      (if i = eventID then 1 else 0) +
      length (filter (\<lambda>t. ticket_id t \<noteq> ticketID \<and> expired_reserved now t \<and>
                           event_id t = i \<and> flt (ticket_id t) = NoFault) (tickets db))" for i
  proof -
    have base: "length (filter (\<lambda>t. expired_reserved now t \<and> event_id t = i \<and>
                                 flt (ticket_id t) = NoFault) (tickets db)) =
      (if expired_reserved now ?new \<and> event_id ?new = i \<and> flt (ticket_id ?new) = NoFault
       then 1 else 0) +
      length (filter (\<lambda>t. ticket_id t \<noteq> ticket_id ?new \<and> expired_reserved now t \<and>
                           event_id t = i \<and> flt (ticket_id t) = NoFault) (tickets db))"
      by (rule count_without_ticket[OF d assms(4)])
    have own: "(expired_reserved now ?new \<and> event_id ?new = i \<and> flt ticketID = NoFault) =
               (i = eventID)"
      using lapsed assms(6) by (auto simp: new_ticket_def)
    show ?thesis
      using base by (simp only: 1 own)
  qed
  have 4: "events db2 =
           map (\<lambda>e. e\<lparr>AvailableSpots := AvailableSpots e + (if ID e = eventID then 1 else 0) +
                  int (length (filter (\<lambda>t. ticket_id t \<noteq> ticketID \<and> expired_reserved now t \<and>
                                           event_id t = ID e \<and> flt (ticket_id t) = NoFault)
                                 (tickets db)))\<rparr>)
             (events db)"
    unfolding E2 by (rule map_cong[OF refl]) (simp add: cnt)
  have 5: "?c \<in> set (tickets db3)"
    using run_cancelled[OF assms(8) wf2 3] by simp
  have only: "t = ?c" if "t \<in> set (tickets db3)" "ticket_id t = ticketID" for t
    using distinct_ticket_unique[OF d3 that(1) 5] that(2) 1 by simp
  have 6: "ConfirmReservation db3 now' ticketID userEmail = (Some ErrNotConfirmable, db3)"
    for now' userEmail
  proof -
    have "\<not> list_ex (\<lambda>t. ticket_id t = ticketID \<and> user_email t = userEmail \<and>
                 status t = reserved \<and> now' < expires_at t) (tickets db3)"
      using only by (fastforce simp: list_ex_iff)
    then show ?thesis by (simp add: Confirm_cases)
  qed
  have 7: "ticketID \<notin> fst ` set (select_expired db3 now')" for now'
    using only by (fastforce simp: select_expired_def expired_reserved_def)
  show ?thesis
    by (intro conjI allI 1 2 3 4 5 6 7)
qed

theorem C7_lapsed_hold_reclaimed_once_witness:
  "reachable gopher_db \<and>
   RegisterForEvent gopher_db 0 1 ''gopher0@example.com'' ''key_0'' = (Inr 1, gopher_held_db) \<and>
   run UNIV gopher_held_db gopher_two_db \<and>
   new_ticket gopher_db 0 1 ''gopher0@example.com'' ''key_0'' \<in> set (tickets gopher_two_db) \<and>
   gopher_swept_db = snd (ReclaimExpiredSeats no_fault gopher_two_db 300) \<and>
   run UNIV gopher_swept_db gopher_swept_db \<and>
   map AvailableSpots (events gopher_db) = [5] \<and>
   map AvailableSpots (events gopher_held_db) = [4] \<and>
   map AvailableSpots (events gopher_two_db) = [3] \<and>
   map AvailableSpots (events gopher_swept_db) = [4] \<and>
   \<lparr>ticket_id = 1, event_id = 1, user_email = ''gopher0@example.com'',
    idempotency_key = ''key_0'', status = cancelled, created_at = 0, expires_at = 300\<rparr>
     \<in> set (tickets gopher_swept_db) \<and>
   ConfirmReservation gopher_swept_db 301 1 ''gopher0@example.com'' =
     (Some ErrNotConfirmable, gopher_swept_db) \<and>
   1 \<notin> fst ` set (select_expired gopher_swept_db 1000)"
proof -
  have reg: "RegisterForEvent gopher_db 0 1 ''gopher0@example.com'' ''key_0'' = (Inr 1, gopher_held_db)"
    by (simp add: gopher_db_eq gopher_held_db_eq RegisterForEvent_def update_events_def
          events_check_def insert_ticket_def new_ticket_def tickets_unique_def)
  have r1: "run UNIV gopher_held_db gopher_two_db"
    unfolding gopher_two_db_def by (rule run_register[OF run_refl])
  have m: "new_ticket gopher_db 0 1 ''gopher0@example.com'' ''key_0'' \<in> set (tickets gopher_two_db)"
    by (simp add: new_ticket_def gopher_db_eq gopher_two_db_eq)
  have late: "(0::nat) + 300 \<le> 300" by simp
  have nf: "no_fault 1 = NoFault" by simp
  have r2: "run UNIV gopher_swept_db gopher_swept_db" by (rule run_refl)
  note t = C7_lapsed_hold_reclaimed_once[OF reachable_gopher_db reg r1 m late nf
      gopher_swept_db_def r2]
  have new: "(new_ticket gopher_db 0 1 ''gopher0@example.com'' ''key_0'')\<lparr>status := cancelled\<rparr> =
     \<lparr>ticket_id = 1, event_id = 1, user_email = ''gopher0@example.com'',
      idempotency_key = ''key_0'', status = cancelled, created_at = 0, expires_at = 300\<rparr>"
    by (simp add: new_ticket_def gopher_db_eq)
  have a0: "map AvailableSpots (events gopher_db) = [5]"
    and a2: "map AvailableSpots (events gopher_two_db) = [3]"
    by (simp_all add: gopher_db_eq gopher_two_db_eq)
  have "events gopher_held_db =
      map (\<lambda>e. if ID e = 1 then e\<lparr>AvailableSpots := AvailableSpots e - 1\<rparr> else e)
        (events gopher_db)"
    using t by blast
  then have a1: "map AvailableSpots (events gopher_held_db) = [4]"
    by (simp add: gopher_db_eq)
  have "events gopher_swept_db =
      map (\<lambda>e. e\<lparr>AvailableSpots := AvailableSpots e + (if ID e = 1 then 1 else 0) +
             int (length (filter (\<lambda>t. ticket_id t \<noteq> 1 \<and> expired_reserved 300 t \<and>
                                      event_id t = ID e \<and> no_fault (ticket_id t) = NoFault)
                            (tickets gopher_two_db)))\<rparr>)
        (events gopher_two_db)"
    using t by blast
  then have a3: "map AvailableSpots (events gopher_swept_db) = [4]"
    by (simp add: gopher_two_db_eq expired_reserved_def)
  have 5: "\<lparr>ticket_id = 1, event_id = 1, user_email = ''gopher0@example.com'',
      idempotency_key = ''key_0'', status = cancelled, created_at = 0, expires_at = 300\<rparr>
     \<in> set (tickets gopher_swept_db)"
    using t new by simp
  have 6: "ConfirmReservation gopher_swept_db 301 1 ''gopher0@example.com'' =
      (Some ErrNotConfirmable, gopher_swept_db)"
    using t by blast
  have 7: "1 \<notin> fst ` set (select_expired gopher_swept_db 1000)"
    using t by blast
  show ?thesis
    by (intro conjI reachable_gopher_db reg r1 m gopher_swept_db_def r2 a0 a1 a2 a3 5 6 7)
qed

section \<open>C8: the bounds of the counter\<close>

text \<open>
  C8, as stated, has the storage layer and the increment enforce the upper
  bound \<open>available_spots \<le> total_spots\<close>.  The table has no such constraint
  (only \<^verbatim>\<open>CHECK (available_spots >= 0)\<close>) and the increment of the reclaimer is
  unconditional: applied to an event all of whose spots are available, the
  UPDATE succeeds and leaves 2 available spots of 1; so does the body of the
  loop of the reclaimer when it is handed a ticket id for that event.
\<close>

theorem C8_upper_bound_counterexample:
  "events_check \<lparr>ID = 1, Name = ''GopherCon'', TotalSpots = 1, AvailableSpots = 2\<rparr> \<and>
   update_events (\<lambda>e. ID e = 1) (\<lambda>e. e\<lparr>AvailableSpots := AvailableSpots e + 1\<rparr>) one_spot_db =
     Inr (one_spot_db\<lparr>events :=
            [\<lparr>ID = 1, Name = ''GopherCon'', TotalSpots = 1, AvailableSpots = 2\<rparr>]\<rparr>, 1) \<and>
   events (snd (reclaim_one no_fault (1, 1) (0, one_spot_db))) =
     [\<lparr>ID = 1, Name = ''GopherCon'', TotalSpots = 1, AvailableSpots = 2\<rparr>]"
  by (simp add: events_check_def update_events_def one_spot_db_eq reclaim_one_def
        update_tickets_def)

text \<open>
  C8, amended.  In every reachable store every event has
  \<open>0 \<le> available_spots \<le> total_spots\<close>.  The lower bound is enforced twice:
  by the storage layer (an INSERT or UPDATE on the table of events succeeds only
  if no row is left with a negative counter) and by the guard of the decrement
  (RegisterForEvent on an event without an available spot changes nothing and
  returns ErrSoldOut).  The upper bound is enforced by neither the storage layer
  nor the increment; it holds in reachable stores, also after reclaim cycles
  in which statements failed, because a counter is only incremented for a
  ticket that the same cycle cancels.
\<close>

theorem C8_capacity_bounds:
  "(reachable db \<and> e \<in> set (events db) \<longrightarrow>
      0 \<le> AvailableSpots e \<and> AvailableSpots e \<le> TotalSpots e) \<and>
   (update_events wh upd db = Inr (db', rows) \<longrightarrow> (\<forall>r\<in>set (events db'). 0 \<le> AvailableSpots r)) \<and>
   (insert_event db name total_spots available_spots = Inr (db', rowid) \<longrightarrow>
      0 \<le> available_spots) \<and>
   (reachable db \<and> \<not> (\<exists>r\<in>set (events db). ID r = eventID \<and> 0 < AvailableSpots r) \<longrightarrow>
      RegisterForEvent db now eventID email idempotencyKey = (Inl ErrSoldOut, db))"
proof (intro conjI impI)
  assume a: "reachable db \<and> e \<in> set (events db)"
  then have "wf_db db" by (simp add: reachable_wf)
  then have "nonneg db" "ledger_le db" by (simp_all add: wf_db_def)
  with a show "0 \<le> AvailableSpots e" "AvailableSpots e \<le> TotalSpots e"
    by (force simp: nonneg_def ledger_le_def)+
next
  assume "update_events wh upd db = Inr (db', rows)"
  then show "\<forall>r\<in>set (events db'). 0 \<le> AvailableSpots r"
    by (auto simp: update_events_def Let_def list_all_iff events_check_def split: if_splits)
next
  assume "insert_event db name total_spots available_spots = Inr (db', rowid)"
  then show "0 \<le> available_spots"
    by (auto simp: insert_event_def Let_def events_check_def split: if_splits)
next
  assume a: "reachable db \<and> \<not> (\<exists>r\<in>set (events db). ID r = eventID \<and> 0 < AvailableSpots r)"
  then have "nonneg db" using reachable_wf[of db] by (simp add: wf_db_def)
  then show "RegisterForEvent db now eventID email idempotencyKey = (Inl ErrSoldOut, db)"
    using a by (simp add: Register_cases list_ex_iff)
qed

theorem C8_capacity_bounds_witness:
  "reachable held_db \<and>
   \<lparr>ID = 1, Name = ''GopherCon'', TotalSpots = 1, AvailableSpots = 0\<rparr> \<in> set (events held_db) \<and>
   0 \<le> AvailableSpots \<lparr>ID = 1, Name = ''GopherCon'', TotalSpots = 1, AvailableSpots = 0\<rparr> \<and>
   AvailableSpots \<lparr>ID = 1, Name = ''GopherCon'', TotalSpots = 1, AvailableSpots = 0\<rparr> \<le>
     TotalSpots \<lparr>ID = 1, Name = ''GopherCon'', TotalSpots = 1, AvailableSpots = 0\<rparr> \<and>
   update_events (\<lambda>e. ID e = 1 \<and> 0 < AvailableSpots e)
       (\<lambda>e. e\<lparr>AvailableSpots := AvailableSpots e - 1\<rparr>) one_spot_db =
     Inr (one_spot_db\<lparr>events :=
            [\<lparr>ID = 1, Name = ''GopherCon'', TotalSpots = 1, AvailableSpots = 0\<rparr>]\<rparr>, 1) \<and>
   list_all (\<lambda>r. 0 \<le> AvailableSpots r)
     (events (one_spot_db\<lparr>events :=
            [\<lparr>ID = 1, Name = ''GopherCon'', TotalSpots = 1, AvailableSpots = 0\<rparr>]\<rparr>)) \<and>
   insert_event empty_db ''GopherCon'' 1 1 = Inr (one_spot_db, 1) \<and>
   \<not> (\<exists>r\<in>set (events held_db). ID r = 1 \<and> 0 < AvailableSpots r) \<and>
   RegisterForEvent held_db 5 1 ''gopher1@example.com'' ''key_1'' = (Inl ErrSoldOut, held_db)"
proof -
  let ?row = "\<lparr>ID = 1, Name = ''GopherCon'', TotalSpots = 1, AvailableSpots = 0\<rparr>"
  let ?wh = "\<lambda>e. ID e = 1 \<and> 0 < AvailableSpots e"
  let ?dec = "\<lambda>e. e\<lparr>AvailableSpots := AvailableSpots e - 1\<rparr>"
  have m: "?row \<in> set (events held_db)"
    by (simp add: held_db_eq)
  have u: "update_events ?wh ?dec one_spot_db = Inr (one_spot_db\<lparr>events := [?row]\<rparr>, 1)"
    by (simp add: update_events_def one_spot_db_eq events_check_def)
  have i: "insert_event empty_db ''GopherCon'' 1 1 = Inr (one_spot_db, 1)"
    by (simp add: insert_event_def one_spot_db_eq empty_db_def events_check_def)
  have n: "\<not> (\<exists>r\<in>set (events held_db). ID r = 1 \<and> 0 < AvailableSpots r)"
    by (simp add: held_db_eq)
  have b: "0 \<le> AvailableSpots ?row \<and> AvailableSpots ?row \<le> TotalSpots ?row"
    using C8_capacity_bounds[where db = held_db and e = ?row] reachable_held_db m by blast
  have l: "list_all (\<lambda>r. 0 \<le> AvailableSpots r) (events (one_spot_db\<lparr>events := [?row]\<rparr>))"
    using C8_capacity_bounds[where db = one_spot_db and wh = ?wh and upd = ?dec
          and db' = "one_spot_db\<lparr>events := [?row]\<rparr>" and rows = 1] u
    unfolding list_all_iff by blast
  have r: "RegisterForEvent held_db 5 1 ''gopher1@example.com'' ''key_1'' = (Inl ErrSoldOut, held_db)"
    using C8_capacity_bounds[where db = held_db and eventID = 1 and now = 5
          and email = "''gopher1@example.com''" and idempotencyKey = "''key_1''"]
      reachable_held_db n by blast
  show ?thesis
    using reachable_held_db m b u l i n r by blast
qed

section \<open>C9: creating an event\<close>

text \<open>
  C9, as stated, asks CreateEvent to fail for every capacity that is not
  positive.  CreateEvent itself has no such check: with capacity 0 it inserts
  the row and returns the event.
\<close>

theorem C9_zero_capacity_counterexample:
  "CreateEvent empty_db ''Launch'' 0 =
     (Inr \<lparr>ID = 1, Name = ''Launch'', TotalSpots = 0, AvailableSpots = 0\<rparr>,
      \<lparr>events = [\<lparr>ID = 1, Name = ''Launch'', TotalSpots = 0, AvailableSpots = 0\<rparr>],
       tickets = [], events_seq = 1, tickets_seq = 0\<rparr>)"
  by (simp add: CreateEvent_def insert_event_def events_check_def empty_db_def)

text \<open>
  C9, amended.  CreateEvent fails, creating nothing, exactly when the capacity
  is negative (the CHECK constraint rejects the row); for every capacity from 0
  upwards it appends the event, with all spots available, and returns it.  The
  rejection of a capacity that is not positive is the handler's:
  HandleCreateEvent answers 400 and leaves the store alone whenever the
  capacity is at most 0 or the name is empty, and otherwise creates the event
  and answers 201 with it.
\<close>

theorem C9_create_event:
  "(totalSpots < 0 \<longrightarrow> CreateEvent db name totalSpots = (Inl (ErrStore CheckFailed), db)) \<and>
   (0 \<le> totalSpots \<longrightarrow>
      CreateEvent db name totalSpots =
        (Inr \<lparr>ID = events_seq db + 1, Name = name, TotalSpots = totalSpots,
              AvailableSpots = totalSpots\<rparr>,
         db\<lparr>events := events db @ [\<lparr>ID = events_seq db + 1, Name = name,
                                      TotalSpots = totalSpots, AvailableSpots = totalSpots\<rparr>],
            events_seq := events_seq db + 1\<rparr>)) \<and>
   (name = [] \<or> totalSpots \<le> 0 \<longrightarrow> HandleCreateEvent db name totalSpots = ((400, None), db)) \<and>
   (name \<noteq> [] \<and> 0 < totalSpots \<longrightarrow>
      HandleCreateEvent db name totalSpots =
        ((201, Some \<lparr>ID = events_seq db + 1, Name = name, TotalSpots = totalSpots,
                     AvailableSpots = totalSpots\<rparr>),
         db\<lparr>events := events db @ [\<lparr>ID = events_seq db + 1, Name = name,
                                      TotalSpots = totalSpots, AvailableSpots = totalSpots\<rparr>],
            events_seq := events_seq db + 1\<rparr>))"
proof (intro conjI impI)
  assume "totalSpots < 0"
  then show "CreateEvent db name totalSpots = (Inl (ErrStore CheckFailed), db)"
    by (rule CreateEvent_fail)
next
  assume "0 \<le> totalSpots"
  then show "CreateEvent db name totalSpots =
        (Inr \<lparr>ID = events_seq db + 1, Name = name, TotalSpots = totalSpots,
              AvailableSpots = totalSpots\<rparr>,
         db\<lparr>events := events db @ [\<lparr>ID = events_seq db + 1, Name = name,
                                      TotalSpots = totalSpots, AvailableSpots = totalSpots\<rparr>],
            events_seq := events_seq db + 1\<rparr>)"
    by (rule CreateEvent_ok)
next
  assume "name = [] \<or> totalSpots \<le> 0"
  then show "HandleCreateEvent db name totalSpots = ((400, None), db)"
    by (auto simp: HandleCreateEvent_def)
next
  assume "name \<noteq> [] \<and> 0 < totalSpots"
  then show "HandleCreateEvent db name totalSpots =
        ((201, Some \<lparr>ID = events_seq db + 1, Name = name, TotalSpots = totalSpots,
                     AvailableSpots = totalSpots\<rparr>),
         db\<lparr>events := events db @ [\<lparr>ID = events_seq db + 1, Name = name,
                                      TotalSpots = totalSpots, AvailableSpots = totalSpots\<rparr>],
            events_seq := events_seq db + 1\<rparr>)"
    by (simp add: HandleCreateEvent_def CreateEvent_ok)
qed

theorem C9_create_event_witness:
  "CreateEvent gopher_db ''Meetup'' (-1) = (Inl (ErrStore CheckFailed), gopher_db) \<and>
   fst (CreateEvent gopher_db ''Meetup'' 3) =
     Inr \<lparr>ID = 2, Name = ''Meetup'', TotalSpots = 3, AvailableSpots = 3\<rparr> \<and>
   HandleCreateEvent gopher_db ''Meetup'' 0 = ((400, None), gopher_db) \<and>
   HandleCreateEvent gopher_db [] 3 = ((400, None), gopher_db) \<and>
   fst (HandleCreateEvent gopher_db ''Meetup'' 3) =
     (201, Some \<lparr>ID = 2, Name = ''Meetup'', TotalSpots = 3, AvailableSpots = 3\<rparr>)"
proof -
  have s: "events_seq gopher_db + 1 = 2" by (simp add: gopher_db_eq)
  note t = C9_create_event[of _ gopher_db]
  have 1: "CreateEvent gopher_db ''Meetup'' (-1) = (Inl (ErrStore CheckFailed), gopher_db)"
    using t[of "-1" "''Meetup''"] by simp
  have 2: "fst (CreateEvent gopher_db ''Meetup'' 3) =
     Inr \<lparr>ID = 2, Name = ''Meetup'', TotalSpots = 3, AvailableSpots = 3\<rparr>"
    using t[of 3 "''Meetup''"] s by simp
  have 3: "HandleCreateEvent gopher_db ''Meetup'' 0 = ((400, None), gopher_db)"
    using t[of 0 "''Meetup''"] by simp
  have 4: "HandleCreateEvent gopher_db [] 3 = ((400, None), gopher_db)"
    using t[of 3 "[]"] by simp
  have 5: "fst (HandleCreateEvent gopher_db ''Meetup'' 3) =
     (201, Some \<lparr>ID = 2, Name = ''Meetup'', TotalSpots = 3, AvailableSpots = 3\<rparr>)"
    using t[of 3 "''Meetup''"] s by simp
  show ?thesis by (intro conjI 1 2 3 4 5)
qed

section \<open>C10: one ticket per event and holder, whatever its status\<close>

text \<open>
  C10, as stated, has a later registration by a holder whose hold was released
  fail with AlreadyRegistered.  The capacity check comes first: once another
  holder has taken the spot that the release gave back, the registration fails
  with ErrSoldOut.
\<close>

theorem C10_released_holder_counterexample:
  "map status (tickets resold_db) = [cancelled, reserved] \<and>
   map user_email (tickets resold_db) = [''gopher0@example.com'', ''gopher1@example.com''] \<and>
   RegisterForEvent resold_db 302 1 ''gopher0@example.com'' ''key_2'' = (Inl ErrSoldOut, resold_db)"
  by (simp add: resold_db_eq RegisterForEvent_def update_events_def events_check_def)

text \<open>
  C10, amended.  In every reachable store no two tickets have the same event
  and e-mail address, whatever their status.  If the store has a ticket of any
  status (reserved, confirmed or cancelled) for an event and an e-mail
  address, every registration for that event and address, with any
  idempotency key, creates no ticket and leaves the store unchanged; it fails
  with ErrAlreadyRegistered when the event has an available spot and with
  ErrSoldOut when it has none.
\<close>

theorem C10_one_ticket_per_holder:
  assumes "reachable db"
    and "t \<in> set (tickets db)" and "event_id t = eventID" and "user_email t = email"
  shows "distinct (map (\<lambda>t. (event_id t, user_email t)) (tickets db)) \<and>
         RegisterForEvent db now eventID email idempotencyKey =
           (Inl (if \<exists>e\<in>set (events db). ID e = eventID \<and> 0 < AvailableSpots e
                 then ErrAlreadyRegistered else ErrSoldOut), db)"
proof -
  have wf: "wf_db db" using assms(1) by (rule reachable_wf)
  then have nn: "nonneg db"
    and u: "distinct (map (\<lambda>t. (event_id t, user_email t)) (tickets db))"
    by (simp_all add: wf_db_def)
  have dup: "\<not> tickets_unique (tickets db) (new_ticket db now eventID email idempotencyKey)"
    using assms(2-4) by (auto simp: tickets_unique_def list_ex_iff new_ticket_def)
  show ?thesis
    using u dup by (simp add: Register_cases[OF nn] list_ex_iff)
qed

theorem C10_one_ticket_per_holder_witness:
  "reachable released_db \<and>
   \<lparr>ticket_id = 1, event_id = 1, user_email = ''gopher0@example.com'',
    idempotency_key = ''key_0'', status = cancelled, created_at = 0, expires_at = 300\<rparr>
     \<in> set (tickets released_db) \<and>
   (\<exists>e\<in>set (events released_db). ID e = 1 \<and> 0 < AvailableSpots e) \<and>
   RegisterForEvent released_db 301 1 ''gopher0@example.com'' ''key_2'' =
     (Inl ErrAlreadyRegistered, released_db)"
proof -
  let ?t = "\<lparr>ticket_id = 1, event_id = 1, user_email = ''gopher0@example.com'',
    idempotency_key = ''key_0'', status = cancelled, created_at = 0, expires_at = 300\<rparr>"
  have m: "?t \<in> set (tickets released_db)"
    by (simp add: released_db_eq)
  have spot: "\<exists>e\<in>set (events released_db). ID e = 1 \<and> 0 < AvailableSpots e"
    by (simp add: released_db_eq)
  have "RegisterForEvent released_db 301 1 ''gopher0@example.com'' ''key_2'' =
     (Inl (if \<exists>e\<in>set (events released_db). ID e = 1 \<and> 0 < AvailableSpots e
           then ErrAlreadyRegistered else ErrSoldOut), released_db)"
    using C10_one_ticket_per_holder[OF reachable_released_db m, of 1 "''gopher0@example.com''" 301 "''key_2''"]
    by simp
  then have "RegisterForEvent released_db 301 1 ''gopher0@example.com'' ''key_2'' =
     (Inl ErrAlreadyRegistered, released_db)"
    using spot by simp
  then show ?thesis
    using reachable_released_db m spot by blast
qed

end
